theory Spec2Isabelle
  imports Main "HOL-Library.Multiset" "HOL-Library.Product_Lexorder" "HOL-Library.Option_ord"
begin

section \<open>The task table and the connection\<close>

text \<open>
  \<^verbatim>\<open>scripts/backfill-project-sequence.py\<close> is a linear script over one table,
  \<^verbatim>\<open>tasks\<close>, of which it touches five columns. A row is a record; identifiers,
  timestamps and sequence numbers are Python integers, nullable columns are options.
  The column \<^verbatim>\<open>id\<close> is the field \<open>task_id\<close> (\<open>id\<close> is the identity function of HOL).
  A table is the list of its rows in storage order. That \<^verbatim>\<open>id\<close> is a key is not
  built into the type: the theorems that need it assume \<open>distinct (map task_id db)\<close>.

  The script holds no code of the database engine. What the engine does with each
  statement is written out below after SQLite and Python's \<^verbatim>\<open>sqlite3\<close> module with
  its default transaction handling: an update is seen by the connection at once and
  reaches the file with the next commit; a unique index refuses a statement that
  would make two rows collide; any call may raise.
\<close>

record task =
  task_id :: int
  project_id :: int
  created_at :: int
  deleted_at :: "int option"
  project_sequence :: "int option"

text \<open>The five statements the script sends to the database, with their parameters.\<close>

datatype stmt =
    SelectTasks
  | UpdateSeq int int
  | Commit
  | CreateUniqueIndex
  | CountSequenced

datatype db_error = OperationalError | IntegrityError

text \<open>
  What the environment does to the run: \<open>F n = Some e\<close> says that the \<open>n\<close>-th call
  made on the connection (counted from 0) raises \<open>e\<close> before having any effect.
\<close>

type_synonym faults = "nat \<Rightarrow> db_error option"

definition no_faults :: faults where
  "no_faults = (\<lambda>n. None)"

text \<open>
  The connection of \<^verbatim>\<open>sqlite3.connect\<close>: \<open>committed\<close> is the table as stored in
  the file, \<open>pending\<close> the table as the connection sees it (the stored rows with the
  updates of the open transaction), \<open>index\<close> says whether the unique index
  \<^verbatim>\<open>task_project_sequence_idx\<close> exists, and \<open>calls\<close> lists the statements issued so
  far, failed ones included. A process that ends without \<^verbatim>\<open>conn.commit()\<close> leaves
  \<open>committed\<close> in the file.
\<close>

record conn =
  committed :: "task list"
  pending :: "task list"
  index :: bool
  calls :: "stmt list"

definition connect :: "task list \<Rightarrow> bool \<Rightarrow> conn" where
  "connect rows ix = \<lparr>committed = rows, pending = rows, index = ix, calls = []\<rparr>"

subsection \<open>The statements\<close>

text \<open>
  \<^verbatim>\<open>ORDER BY project_id, created_at ASC\<close>, with the order the engine gives to rows
  that are equal in both. Without the unique index SQLite scans the table and sorts:
  such rows stay in storage order (\<open>sort_key\<close> is a stable insertion sort). With
  \<^verbatim>\<open>task_project_sequence_idx\<close> it scans through the index, on
  \<open>(project_id, project_sequence)\<close>, and sorts each project on \<open>created_at\<close>: such rows
  come by \<open>project_sequence\<close>, the null ones first (\<open>None\<close> is the least element of
  the order on options), and in storage order when that is equal too.
\<close>

definition order_by :: "bool \<Rightarrow> task list \<Rightarrow> task list" where
  "order_by ix rows =
     (if ix then sort_key (\<lambda>t. (project_id t, created_at t, project_sequence t)) rows
      else sort_key (\<lambda>t. (project_id t, created_at t)) rows)"

text \<open>
  \<^verbatim>\<open>SELECT id, project_id FROM tasks WHERE deleted_at IS NULL
  ORDER BY project_id, created_at ASC\<close>, on the rows of a database that has the index
  (\<open>ix\<close>) or not.
\<close>

definition select_tasks :: "bool \<Rightarrow> task list \<Rightarrow> (int \<times> int) list" where
  "select_tasks ix rows =
     map (\<lambda>t. (task_id t, project_id t))
       (order_by ix (filter (\<lambda>t. deleted_at t = None) rows))"

text \<open>\<^verbatim>\<open>UPDATE tasks SET project_sequence = ? WHERE id = ?\<close> on the rows.\<close>

definition update_seq :: "int \<Rightarrow> int \<Rightarrow> task list \<Rightarrow> task list" where
  "update_seq sequence tid rows =
     map (\<lambda>t. if task_id t = tid then t\<lparr>project_sequence := Some sequence\<rparr> else t) rows"

text \<open>
  What \<^verbatim>\<open>UNIQUE ... ON tasks(project_id, project_sequence)\<close> demands of a table:
  no two rows with the same project and the same non-null sequence (nulls never collide).
\<close>

definition unique_ok :: "task list \<Rightarrow> bool" where
  "unique_ok rows =
     distinct (map (\<lambda>t. (project_id t, project_sequence t))
                 (filter (\<lambda>t. project_sequence t \<noteq> None) rows))"

text \<open>\<^verbatim>\<open>SELECT COUNT(*) FROM tasks WHERE project_sequence IS NOT NULL\<close>.\<close>

definition count_sequenced :: "task list \<Rightarrow> nat" where
  "count_sequenced rows = length (filter (\<lambda>t. project_sequence t \<noteq> None) rows)"

text \<open>
  The effect of a statement that the environment lets through. An update that would
  break an existing unique index raises and changes nothing; creating the index is
  \<^verbatim>\<open>IF NOT EXISTS\<close>, and raises when the rows already collide.
\<close>

fun run_stmt :: "stmt \<Rightarrow> conn \<Rightarrow> (db_error \<times> conn) + conn" where
  "run_stmt SelectTasks c = Inr c"
| "run_stmt (UpdateSeq sequence tid) c =
     (let rows = update_seq sequence tid (pending c)
      in if index c \<and> \<not> unique_ok rows then Inl (IntegrityError, c)
         else Inr (c\<lparr>pending := rows\<rparr>))"
| "run_stmt Commit c = Inr (c\<lparr>committed := pending c\<rparr>)"
| "run_stmt CreateUniqueIndex c =
     (if index c then Inr c
      else if unique_ok (pending c) then Inr (c\<lparr>index := True\<rparr>)
      else Inl (IntegrityError, c))"
| "run_stmt CountSequenced c = Inr c"

text \<open>\<^verbatim>\<open>cursor.execute\<close> and \<^verbatim>\<open>conn.commit\<close>: record the call, then fail or run.\<close>

definition execute :: "faults \<Rightarrow> stmt \<Rightarrow> conn \<Rightarrow> (db_error \<times> conn) + conn" where
  "execute F s c =
     (let c' = c\<lparr>calls := calls c @ [s]\<rparr>
      in case F (length (calls c)) of
           Some e \<Rightarrow> Inl (e, c')
         | None \<Rightarrow> run_stmt s c')"

section \<open>The script\<close>

text \<open>What the script prints.\<close>

datatype line =
    Progress int int int
  | IndexCreated
  | IndexWarning db_error
  | Summary nat

text \<open>
  The loop of lines 19 to 28. \<open>project_sequences\<close> is the dictionary; a project not
  in it gets 1, a project in it gets its value plus one, and \<open>sequence\<close> is the value
  stored. An exception of \<^verbatim>\<open>cursor.execute\<close> leaves the loop with the lines printed so
  far.
\<close>

fun assign_loop ::
  "faults \<Rightarrow> (int \<rightharpoonup> int) \<Rightarrow> (int \<times> int) list \<Rightarrow> conn \<Rightarrow> line list
     \<Rightarrow> (db_error \<times> conn \<times> line list) + (conn \<times> line list)" where
  "assign_loop F project_sequences [] c out = Inr (c, out)"
| "assign_loop F project_sequences ((tid, pid) # tasks) c out =
     (let sequence = (case project_sequences pid of None \<Rightarrow> 1 | Some n \<Rightarrow> n + 1);
          project_sequences' = project_sequences(pid \<mapsto> sequence)
      in case execute F (UpdateSeq sequence tid) c of
           Inl (e, c') \<Rightarrow> Inl (e, c', out)
         | Inr c' \<Rightarrow>
             assign_loop F project_sequences' tasks c' (out @ [Progress tid pid sequence]))"

text \<open>
  Lines 34 to 39: \<^verbatim>\<open>try: execute(CREATE UNIQUE INDEX ...); commit(); print(...)
  except Exception as e: print(...)\<close>.
\<close>

definition create_index_step :: "faults \<Rightarrow> conn \<Rightarrow> line list \<Rightarrow> conn \<times> line list" where
  "create_index_step F c out =
     (case execute F CreateUniqueIndex c of
        Inl (e, c') \<Rightarrow> (c', out @ [IndexWarning e])
      | Inr c' \<Rightarrow>
          (case execute F Commit c' of
             Inl (e, c'') \<Rightarrow> (c'', out @ [IndexWarning e])
           | Inr c'' \<Rightarrow> (c'', out @ [IndexCreated])))"

datatype outcome =
    Aborted db_error conn "line list"
  | Finished conn "line list"

text \<open>The whole run, from the select to the summary line.\<close>

definition backfill :: "faults \<Rightarrow> conn \<Rightarrow> outcome" where
  "backfill F c0 =
     (case execute F SelectTasks c0 of
        Inl (e, c) \<Rightarrow> Aborted e c []
      | Inr c1 \<Rightarrow>
          (case assign_loop F Map.empty (select_tasks (index c1) (pending c1)) c1 [] of
             Inl (e, c, out) \<Rightarrow> Aborted e c out
           | Inr (c2, out2) \<Rightarrow>
               (case execute F Commit c2 of
                  Inl (e, c) \<Rightarrow> Aborted e c out2
                | Inr c3 \<Rightarrow>
                    (case create_index_step F c3 out2 of
                       (c4, out4) \<Rightarrow>
                         (case execute F CountSequenced c4 of
                            Inl (e, c) \<Rightarrow> Aborted e c out4
                          | Inr c5 \<Rightarrow>
                              Finished c5 (out4 @ [Summary (count_sequenced (pending c5))]))))))"

fun outcome_conn :: "outcome \<Rightarrow> conn" where
  "outcome_conn (Aborted e c out) = c"
| "outcome_conn (Finished c out) = c"

fun outcome_lines :: "outcome \<Rightarrow> line list" where
  "outcome_lines (Aborted e c out) = out"
| "outcome_lines (Finished c out) = out"

section \<open>Notions used in the statements\<close>

text \<open>
  The sequence numbers the loop computes, as a function of the dictionary it starts
  from and of the projects of the rows it scans, in scan order.
\<close>

fun sequences :: "(int \<rightharpoonup> int) \<Rightarrow> int list \<Rightarrow> int list" where
  "sequences m [] = []"
| "sequences m (p # ps) =
     (let s = (case m p of None \<Rightarrow> 1 | Some n \<Rightarrow> n + 1)
      in s # sequences (m(p \<mapsto> s)) ps)"

text \<open>The pairs \<open>(sequence, id)\<close> of the updates the loop issues for a scan.\<close>

definition issued :: "(int \<rightharpoonup> int) \<Rightarrow> (int \<times> int) list \<Rightarrow> (int \<times> int) list" where
  "issued m tasks = zip (sequences m (map snd tasks)) (map fst tasks)"

text \<open>The table after a list of updates.\<close>

definition apply_updates :: "(int \<times> int) list \<Rightarrow> task list \<Rightarrow> task list" where
  "apply_updates us rows = fold (\<lambda>(s, tid). update_seq s tid) us rows"

text \<open>
  The table in the file when the process has ended, whether the run finished or was
  aborted by an exception.
\<close>

definition stored_after :: "faults \<Rightarrow> task list \<Rightarrow> bool \<Rightarrow> task list" where
  "stored_after F db ix = committed (outcome_conn (backfill F (connect db ix)))"

text \<open>
  The sequence that a list of updates leaves on the row with a given id: the one of
  the last update with that id.
\<close>

definition assigned :: "(int \<times> int) list \<Rightarrow> int \<rightharpoonup> int" where
  "assigned us = map_of (map (\<lambda>(s, tid). (tid, s)) (rev us))"

text \<open>A row after such updates.\<close>

definition set_sequence :: "(int \<rightharpoonup> int) \<Rightarrow> task \<Rightarrow> task" where
  "set_sequence a t =
     (case a (task_id t) of None \<Rightarrow> t | Some s \<Rightarrow> t\<lparr>project_sequence := Some s\<rparr>)"

text \<open>The statements issued, reduced to the updates: pairs \<open>(sequence, id)\<close> in call order.\<close>

fun updates_of :: "stmt list \<Rightarrow> (int \<times> int) list" where
  "updates_of [] = []"
| "updates_of (UpdateSeq s tid # xs) = (s, tid) # updates_of xs"
| "updates_of (x # xs) = updates_of xs"

text \<open>The live rows in the order of the query.\<close>

definition scan :: "bool \<Rightarrow> task list \<Rightarrow> task list" where
  "scan ix db = order_by ix (filter (\<lambda>t. deleted_at t = None) db)"

text \<open>The environment that fails call \<open>k\<close> with \<open>e\<close> and no other call.\<close>

definition fault_at :: "nat \<Rightarrow> db_error \<Rightarrow> faults" where
  "fault_at k e = (\<lambda>n. if n = k then Some e else None)"

section \<open>Properties of the statements, the loop and the run\<close>

lemma length_sequences [simp]: "length (sequences m ps) = length ps"
  by (induction ps arbitrary: m) (simp_all add: Let_def)

lemma issued_Nil [simp]: "issued m [] = []"
  by (simp add: issued_def)

lemma issued_Cons:
  "issued m ((tid, pid) # tasks) =
     (case m pid of None \<Rightarrow> 1 | Some n \<Rightarrow> n + 1, tid)
       # issued (m(pid \<mapsto> (case m pid of None \<Rightarrow> 1 | Some n \<Rightarrow> n + 1))) tasks"
  by (simp add: issued_def Let_def)

lemma execute_Inl:
  "execute F s c = Inl (e, c') \<Longrightarrow>
     committed c' = committed c \<and> pending c' = pending c \<and> index c' = index c
     \<and> calls c' = calls c @ [s]"
  by (cases s) (auto simp: execute_def Let_def split: option.splits if_splits)

lemma execute_Inr_calls: "execute F s c = Inr c' \<Longrightarrow> calls c' = calls c @ [s]"
  by (cases s) (auto simp: execute_def Let_def split: option.splits if_splits)

lemma execute_update_Inr:
  "execute F (UpdateSeq s tid) c = Inr c' \<Longrightarrow>
     c' = c\<lparr>pending := update_seq s tid (pending c), calls := calls c @ [UpdateSeq s tid]\<rparr>
     \<and> (index c \<longrightarrow> unique_ok (update_seq s tid (pending c)))"
  by (auto simp: execute_def Let_def split: option.splits if_splits)

lemma assign_loop_Inr:
  "assign_loop F m tasks c out = Inr (c', out') \<Longrightarrow>
     c' = c\<lparr>pending := apply_updates (issued m tasks) (pending c),
            calls := calls c @ map (\<lambda>(s, tid). UpdateSeq s tid) (issued m tasks)\<rparr>
     \<and> out' = out @ map (\<lambda>((tid, pid), s). Progress tid pid s)
                      (zip tasks (sequences m (map snd tasks)))"
proof (induction tasks arbitrary: m c out)
  case Nil
  then show ?case by (simp add: apply_updates_def)
next
  case (Cons a tasks)
  obtain tid pid where a: "a = (tid, pid)" by (cases a)
  define s where "s = (case m pid of None \<Rightarrow> (1::int) | Some n \<Rightarrow> n + 1)"
  from Cons.prems obtain c1 where
    ex: "execute F (UpdateSeq s tid) c = Inr c1" and
    rest: "assign_loop F (m(pid \<mapsto> s)) tasks c1 (out @ [Progress tid pid s]) = Inr (c', out')"
    by (auto simp: a s_def Let_def split: sum.splits)
  from execute_update_Inr [OF ex]
  have c1: "c1 = c\<lparr>pending := update_seq s tid (pending c), calls := calls c @ [UpdateSeq s tid]\<rparr>"
    by simp
  have step: "issued m (a # tasks) = (s, tid) # issued (m(pid \<mapsto> s)) tasks"
    by (simp add: a issued_Cons s_def)
  have seqs: "sequences m (map snd (a # tasks)) = s # sequences (m(pid \<mapsto> s)) (map snd tasks)"
    by (simp add: a s_def Let_def)
  from Cons.IH [OF rest] have
    c': "c' = c1\<lparr>pending := apply_updates (issued (m(pid \<mapsto> s)) tasks) (pending c1),
            calls := calls c1 @ map (\<lambda>(s, tid). UpdateSeq s tid) (issued (m(pid \<mapsto> s)) tasks)\<rparr>"
    and out': "out' = (out @ [Progress tid pid s]) @ map (\<lambda>((tid, pid), s). Progress tid pid s)
                      (zip tasks (sequences (m(pid \<mapsto> s)) (map snd tasks)))"
    by blast+
  show ?case
    unfolding step seqs c' out' c1 by (simp add: a apply_updates_def)
qed

lemma execute_select_Inr:
  "execute F SelectTasks c = Inr c' \<Longrightarrow> c' = c\<lparr>calls := calls c @ [SelectTasks]\<rparr>"
  by (auto simp: execute_def Let_def split: option.splits)

lemma execute_count_Inr:
  "execute F CountSequenced c = Inr c' \<Longrightarrow> c' = c\<lparr>calls := calls c @ [CountSequenced]\<rparr>"
  by (auto simp: execute_def Let_def split: option.splits)

lemma execute_commit_Inr:
  "execute F Commit c = Inr c' \<Longrightarrow>
     c' = c\<lparr>committed := pending c, calls := calls c @ [Commit]\<rparr>"
  by (auto simp: execute_def Let_def split: option.splits)

lemma execute_index_Inr:
  "execute F CreateUniqueIndex c = Inr c' \<Longrightarrow>
     c' = c\<lparr>index := True, calls := calls c @ [CreateUniqueIndex]\<rparr>
     \<and> (index c \<or> unique_ok (pending c))"
  by (auto simp: execute_def Let_def split: option.splits if_splits)

lemma assign_loop_Inl:
  "assign_loop F m tasks c out = Inl (e, c', out') \<Longrightarrow>
     \<exists>k < length tasks.
       c' = c\<lparr>pending := apply_updates (take k (issued m tasks)) (pending c),
              calls := calls c @ map (\<lambda>(s, tid). UpdateSeq s tid) (take (Suc k) (issued m tasks))\<rparr>"
proof (induction tasks arbitrary: m c out)
  case Nil
  then show ?case by simp
next
  case (Cons a tasks)
  obtain tid pid where a: "a = (tid, pid)" by (cases a)
  define s where "s = (case m pid of None \<Rightarrow> (1::int) | Some n \<Rightarrow> n + 1)"
  have step: "issued m (a # tasks) = (s, tid) # issued (m(pid \<mapsto> s)) tasks"
    by (simp add: a issued_Cons s_def)
  show ?case
  proof (cases "execute F (UpdateSeq s tid) c")
    case (Inl b)
    with Cons.prems have b: "b = (e, c')"
      by (auto simp: a s_def Let_def split: sum.splits prod.splits)
    from execute_Inl [OF Inl [unfolded b]]
    have "c' = c\<lparr>pending := apply_updates (take 0 (issued m (a # tasks))) (pending c),
              calls := calls c @ map (\<lambda>(s, tid). UpdateSeq s tid) (take (Suc 0) (issued m (a # tasks)))\<rparr>"
      unfolding step by (simp add: apply_updates_def)
    then show ?thesis by (intro exI [of _ 0]) simp
  next
    case (Inr c1)
    with Cons.prems have
      rest: "assign_loop F (m(pid \<mapsto> s)) tasks c1 (out @ [Progress tid pid s]) = Inl (e, c', out')"
      by (auto simp: a s_def Let_def split: sum.splits)
    from execute_update_Inr [OF Inr]
    have c1: "c1 = c\<lparr>pending := update_seq s tid (pending c), calls := calls c @ [UpdateSeq s tid]\<rparr>"
      by simp
    from Cons.IH [OF rest] obtain k where k: "k < length tasks" and
      c': "c' = c1\<lparr>pending := apply_updates (take k (issued (m(pid \<mapsto> s)) tasks)) (pending c1),
              calls := calls c1 @ map (\<lambda>(s, tid). UpdateSeq s tid)
                         (take (Suc k) (issued (m(pid \<mapsto> s)) tasks))\<rparr>"
      by blast
    have "c' = c\<lparr>pending := apply_updates (take (Suc k) (issued m (a # tasks))) (pending c),
              calls := calls c @ map (\<lambda>(s, tid). UpdateSeq s tid)
                         (take (Suc (Suc k)) (issued m (a # tasks)))\<rparr>"
      unfolding step c' c1 by (simp add: apply_updates_def)
    with k show ?thesis by (intro exI [of _ "Suc k"]) simp
  qed
qed

lemma create_index_step_result:
  "create_index_step F c out = (c', out') \<Longrightarrow>
     pending c' = pending c
     \<and> (committed c' = committed c \<or> committed c' = pending c)
     \<and> (calls c' = calls c @ [CreateUniqueIndex]
          \<or> calls c' = calls c @ [CreateUniqueIndex, Commit])
     \<and> (out' = out @ [IndexCreated] \<or> (\<exists>e. out' = out @ [IndexWarning e]))"
  by (auto simp: create_index_step_def split: sum.splits
        dest!: execute_Inl execute_index_Inr execute_commit_Inr)

lemma backfill_cases [case_names select_fails loop_fails commit_fails count_fails finished]:
  obtains
    e c where "execute F SelectTasks c0 = Inl (e, c)" "backfill F c0 = Aborted e c []"
  | c1 e c out where "execute F SelectTasks c0 = Inr c1"
      "assign_loop F Map.empty (select_tasks (index c1) (pending c1)) c1 [] = Inl (e, c, out)"
      "backfill F c0 = Aborted e c out"
  | c1 c2 out2 e c where "execute F SelectTasks c0 = Inr c1"
      "assign_loop F Map.empty (select_tasks (index c1) (pending c1)) c1 [] = Inr (c2, out2)"
      "execute F Commit c2 = Inl (e, c)"
      "backfill F c0 = Aborted e c out2"
  | c1 c2 out2 c3 c4 out4 e c where "execute F SelectTasks c0 = Inr c1"
      "assign_loop F Map.empty (select_tasks (index c1) (pending c1)) c1 [] = Inr (c2, out2)"
      "execute F Commit c2 = Inr c3"
      "create_index_step F c3 out2 = (c4, out4)"
      "execute F CountSequenced c4 = Inl (e, c)"
      "backfill F c0 = Aborted e c out4"
  | c1 c2 out2 c3 c4 out4 c5 where "execute F SelectTasks c0 = Inr c1"
      "assign_loop F Map.empty (select_tasks (index c1) (pending c1)) c1 [] = Inr (c2, out2)"
      "execute F Commit c2 = Inr c3"
      "create_index_step F c3 out2 = (c4, out4)"
      "execute F CountSequenced c4 = Inr c5"
      "backfill F c0 = Finished c5 (out4 @ [Summary (count_sequenced (pending c5))])"
proof (cases "execute F SelectTasks c0")
  case (Inl a)
  then show ?thesis
    using that(1) [of "fst a" "snd a"] by (simp add: backfill_def split: prod.splits)
next
  case c1: (Inr c1)
  show ?thesis
  proof (cases "assign_loop F Map.empty (select_tasks (index c1) (pending c1)) c1 []")
    case (Inl a)
    then show ?thesis
      using c1 that(2) [of c1 "fst a" "fst (snd a)" "snd (snd a)"]
      by (simp add: backfill_def split: prod.splits)
  next
    case (Inr b)
    obtain c2 out2 where b: "b = (c2, out2)" by (cases b)
    note loop = Inr [unfolded b]
    show ?thesis
    proof (cases "execute F Commit c2")
      case (Inl a)
      then show ?thesis
        using c1 loop that(3) [of c1 c2 out2 "fst a" "snd a"]
        by (simp add: backfill_def split: prod.splits)
    next
      case c3: (Inr c3)
      obtain c4 out4 where ix: "create_index_step F c3 out2 = (c4, out4)"
        by (cases "create_index_step F c3 out2")
      show ?thesis
      proof (cases "execute F CountSequenced c4")
        case (Inl a)
        then show ?thesis
          using c1 loop c3 ix that(4) [of c1 c2 out2 c3 c4 out4 "fst a" "snd a"]
          by (simp add: backfill_def split: prod.splits)
      next
        case (Inr c5)
        then show ?thesis
          using c1 loop c3 ix that(5) [of c1 c2 out2 c3 c4 out4 c5]
          by (simp add: backfill_def)
      qed
    qed
  qed
qed

lemma connect_simps [simp]:
  "committed (connect db ix) = db" "pending (connect db ix) = db"
  "index (connect db ix) = ix" "calls (connect db ix) = []"
  by (simp_all add: connect_def)

lemma execute_select_connect:
  "execute F SelectTasks (connect db ix) = Inr c1 \<Longrightarrow>
     c1 = \<lparr>committed = db, pending = db, index = ix, calls = [SelectTasks]\<rparr>"
  by (drule execute_select_Inr) (simp add: connect_def)

text \<open>The connection when the first commit has succeeded.\<close>

lemma after_commit:
  assumes "execute F SelectTasks (connect db ix) = Inr c1"
    and "assign_loop F Map.empty (select_tasks (index c1) (pending c1)) c1 [] = Inr (c2, out2)"
    and "execute F Commit c2 = Inr c3"
  shows "c3 = \<lparr>committed = apply_updates (issued Map.empty (select_tasks ix db)) db,
               pending = apply_updates (issued Map.empty (select_tasks ix db)) db,
               index = ix,
               calls = SelectTasks # map (\<lambda>(s, tid). UpdateSeq s tid)
                          (issued Map.empty (select_tasks ix db)) @ [Commit]\<rparr>"
    and "out2 = map (\<lambda>((tid, pid), s). Progress tid pid s)
                  (zip (select_tasks ix db) (sequences Map.empty (map snd (select_tasks ix db))))"
proof -
  note c1 = execute_select_connect [OF assms(1)]
  from assign_loop_Inr [OF assms(2)] have
    c2: "c2 = c1\<lparr>pending := apply_updates (issued Map.empty (select_tasks (index c1) (pending c1))) (pending c1),
            calls := calls c1 @ map (\<lambda>(s, tid). UpdateSeq s tid)
                       (issued Map.empty (select_tasks (index c1) (pending c1)))\<rparr>"
    and out2: "out2 = [] @ map (\<lambda>((tid, pid), s). Progress tid pid s)
                  (zip (select_tasks (index c1) (pending c1))
                     (sequences Map.empty (map snd (select_tasks (index c1) (pending c1)))))"
    by blast+
  show "c3 = \<lparr>committed = apply_updates (issued Map.empty (select_tasks ix db)) db,
               pending = apply_updates (issued Map.empty (select_tasks ix db)) db,
               index = ix,
               calls = SelectTasks # map (\<lambda>(s, tid). UpdateSeq s tid)
                          (issued Map.empty (select_tasks ix db)) @ [Commit]\<rparr>"
    unfolding execute_commit_Inr [OF assms(3)] c2 by (simp add: c1)
  show "out2 = map (\<lambda>((tid, pid), s). Progress tid pid s)
                  (zip (select_tasks ix db) (sequences Map.empty (map snd (select_tasks ix db))))"
    unfolding out2 by (simp add: c1)
qed

lemma stored_after_cases:
  "stored_after F db ix = db
   \<or> stored_after F db ix = apply_updates (issued Map.empty (select_tasks ix db)) db"
proof (cases rule: backfill_cases [of F "connect db ix"])
  case (select_fails e c)
  from execute_Inl [OF select_fails(1)] show ?thesis
    by (simp add: stored_after_def select_fails(2))
next
  case (loop_fails c1 e c out)
  from assign_loop_Inl [OF loop_fails(2)] execute_select_connect [OF loop_fails(1)]
  show ?thesis
    by (auto simp: stored_after_def loop_fails(3))
next
  case (commit_fails c1 c2 out2 e c)
  from assign_loop_Inr [OF commit_fails(2)] execute_select_connect [OF commit_fails(1)]
    execute_Inl [OF commit_fails(3)]
  show ?thesis
    by (simp add: stored_after_def commit_fails(4))
next
  case (count_fails c1 c2 out2 c3 c4 out4 e c)
  note c3 = after_commit(1) [OF count_fails(1,2,3)]
  from create_index_step_result [OF count_fails(4)] execute_Inl [OF count_fails(5)]
  show ?thesis
    by (auto simp: stored_after_def count_fails(6) c3)
next
  case (finished c1 c2 out2 c3 c4 out4 c5)
  note c3 = after_commit(1) [OF finished(1,2,3)]
  from create_index_step_result [OF finished(4)] execute_count_Inr [OF finished(5)]
  show ?thesis
    by (auto simp: stored_after_def finished(6) c3)
qed

lemma update_seq_columns:
  "map task_id (update_seq s tid rows) = map task_id rows"
  "map project_id (update_seq s tid rows) = map project_id rows"
  "map created_at (update_seq s tid rows) = map created_at rows"
  "map deleted_at (update_seq s tid rows) = map deleted_at rows"
  by (simp_all add: update_seq_def)

lemma apply_updates_columns:
  "map task_id (apply_updates us rows) = map task_id rows"
  "map project_id (apply_updates us rows) = map project_id rows"
  "map created_at (apply_updates us rows) = map created_at rows"
  "map deleted_at (apply_updates us rows) = map deleted_at rows"
  unfolding apply_updates_def
  by (induction us arbitrary: rows; simp add: update_seq_columns split: prod.splits)+

lemma assigned_Nil [simp]: "assigned [] = Map.empty"
  by (simp add: assigned_def)

lemma assigned_snoc [simp]: "assigned (us @ [(s, tid)]) = (assigned us)(tid \<mapsto> s)"
  by (rule ext) (simp add: assigned_def)

lemma apply_updates_snoc:
  "apply_updates (us @ [(s, tid)]) rows = update_seq s tid (apply_updates us rows)"
  by (simp add: apply_updates_def)

lemma update_seq_set_sequence:
  "update_seq s tid (map (set_sequence a) rows) = map (set_sequence (a(tid \<mapsto> s))) rows"
  by (auto simp: update_seq_def set_sequence_def split: option.splits)

lemma apply_updates_closed:
  "apply_updates us rows = map (set_sequence (assigned us)) rows"
proof (induction us rule: rev_induct)
  case Nil
  show ?case by (simp add: apply_updates_def set_sequence_def)
next
  case (snoc u us)
  obtain s tid where u: "u = (s, tid)" by (cases u)
  show ?case
    by (simp only: u apply_updates_snoc snoc.IH update_seq_set_sequence assigned_snoc)
qed

lemma assigned_None: "tid \<notin> snd ` set us \<Longrightarrow> assigned us tid = None"
  by (force simp: assigned_def map_of_eq_None_iff)

lemma assigned_Some_mem: "assigned us tid = Some s \<Longrightarrow> (s, tid) \<in> set us"
  by (auto simp: assigned_def dest!: map_of_SomeD)

lemma assigned_distinct:
  "distinct (map snd us) \<Longrightarrow> (s, tid) \<in> set us \<Longrightarrow> assigned us tid = Some s"
proof -
  assume d: "distinct (map snd us)" and m: "(s, tid) \<in> set us"
  have "map fst (map (\<lambda>(s, tid). (tid, s)) (rev us)) = rev (map snd us)"
    by (simp add: rev_map case_prod_unfold comp_def)
  with d have "distinct (map fst (map (\<lambda>(s, tid). (tid, s)) (rev us)))" by simp
  moreover from m have "(tid, s) \<in> set (map (\<lambda>(s, tid). (tid, s)) (rev us))" by force
  ultimately show ?thesis unfolding assigned_def by (rule map_of_is_SomeI)
qed

lemma issued_ids: "map snd (issued m tasks) = map fst tasks"
  by (simp add: issued_def)

lemma set_order_by [simp]: "set (order_by ix rows) = set rows"
  by (simp add: order_by_def)

lemma mset_order_by [simp]: "mset (order_by ix rows) = mset rows"
  by (simp add: order_by_def)

lemma length_order_by [simp]: "length (order_by ix rows) = length rows"
  by (simp add: order_by_def)

lemma select_tasks_ids:
  "map fst (select_tasks ix db) =
     map task_id (order_by ix (filter (\<lambda>t. deleted_at t = None) db))"
  by (simp add: select_tasks_def comp_def)

lemma select_tasks_id_set:
  "fst ` set (select_tasks ix db) = task_id ` {t \<in> set db. deleted_at t = None}"
proof -
  have "fst ` set (select_tasks ix db) = set (map fst (select_tasks ix db))" by simp
  also have "\<dots> = task_id ` {t \<in> set db. deleted_at t = None}"
    unfolding select_tasks_ids by auto
  finally show ?thesis .
qed

lemma deleted_not_selected:
  assumes "distinct (map task_id db)" "t \<in> set db" "deleted_at t \<noteq> None"
  shows "task_id t \<notin> fst ` set (select_tasks ix db)"
proof
  assume "task_id t \<in> fst ` set (select_tasks ix db)"
  then obtain u where u: "u \<in> set db" "deleted_at u = None" "task_id u = task_id t"
    unfolding select_tasks_id_set by auto
  from assms(1) have "inj_on task_id (set db)" by (simp add: distinct_map)
  with u(1,3) assms(2) have "u = t" by (auto dest: inj_onD)
  with u(2) assms(3) show False by simp
qed

lemma loop_fails_conn:
  assumes "execute F SelectTasks (connect db ix) = Inr c1"
    and "assign_loop F Map.empty (select_tasks (index c1) (pending c1)) c1 [] = Inl (e, c, out)"
  shows "\<exists>k < length (select_tasks ix db).
           c = \<lparr>committed = db,
                 pending = apply_updates (take k (issued Map.empty (select_tasks ix db))) db,
                 index = ix,
                 calls = SelectTasks # map (\<lambda>(s, tid). UpdateSeq s tid)
                           (take (Suc k) (issued Map.empty (select_tasks ix db)))\<rparr>"
proof -
  note c1 = execute_select_connect [OF assms(1)]
  from assign_loop_Inl [OF assms(2)] obtain k where
    k: "k < length (select_tasks (index c1) (pending c1))" and
    c: "c = c1\<lparr>pending := apply_updates (take k (issued Map.empty (select_tasks (index c1) (pending c1)))) (pending c1),
              calls := calls c1 @ map (\<lambda>(s, tid). UpdateSeq s tid)
                         (take (Suc k) (issued Map.empty (select_tasks (index c1) (pending c1))))\<rparr>"
    by blast
  from k have "k < length (select_tasks ix db)" by (simp add: c1)
  moreover have "c = \<lparr>committed = db,
                 pending = apply_updates (take k (issued Map.empty (select_tasks ix db))) db,
                 index = ix,
                 calls = SelectTasks # map (\<lambda>(s, tid). UpdateSeq s tid)
                           (take (Suc k) (issued Map.empty (select_tasks ix db)))\<rparr>"
    unfolding c by (simp add: c1)
  ultimately show ?thesis by blast
qed

lemma commit_fails_conn:
  assumes "execute F SelectTasks (connect db ix) = Inr c1"
    and "assign_loop F Map.empty (select_tasks (index c1) (pending c1)) c1 [] = Inr (c2, out2)"
    and "execute F Commit c2 = Inl (e, c)"
  shows "c = \<lparr>committed = db,
              pending = apply_updates (issued Map.empty (select_tasks ix db)) db,
              index = ix,
              calls = SelectTasks # map (\<lambda>(s, tid). UpdateSeq s tid)
                        (issued Map.empty (select_tasks ix db)) @ [Commit]\<rparr>"
proof -
  note c1 = execute_select_connect [OF assms(1)]
  from assign_loop_Inr [OF assms(2)] have
    c2: "c2 = c1\<lparr>pending := apply_updates (issued Map.empty (select_tasks (index c1) (pending c1))) (pending c1),
            calls := calls c1 @ map (\<lambda>(s, tid). UpdateSeq s tid)
                       (issued Map.empty (select_tasks (index c1) (pending c1)))\<rparr>"
    by blast
  from execute_Inl [OF assms(3)] show ?thesis
    unfolding c2 by (cases c) (simp add: c1)
qed

lemma Commit_not_update: "Commit \<notin> set (map (\<lambda>(s, tid). UpdateSeq s tid) us)"
  by auto

lemma execute_count_Inl:
  "execute F CountSequenced c = Inl (e, c') \<Longrightarrow> F (length (calls c)) = Some e"
  by (auto simp: execute_def Let_def split: option.splits)

lemma create_index_step_lines:
  "create_index_step F c out = (c', out') \<Longrightarrow>
     (\<forall>e. F (length (calls c)) = Some e \<longrightarrow> out' = out @ [IndexWarning e])
     \<and> (F (length (calls c)) = None \<and> \<not> index c \<and> \<not> unique_ok (pending c)
          \<longrightarrow> out' = out @ [IndexWarning IntegrityError])"
  by (auto simp: create_index_step_def execute_def Let_def split: option.splits sum.splits if_splits)

lemma outcome_updates:
  assumes "UpdateSeq s tid \<in> set (calls (outcome_conn (backfill F (connect db ix))))"
  shows "(s, tid) \<in> set (issued Map.empty (select_tasks ix db))"
proof (cases rule: backfill_cases [of F "connect db ix"])
  case (select_fails e c)
  from execute_Inl [OF select_fails(1)] assms show ?thesis
    by (simp add: select_fails(2))
next
  case (loop_fails c1 e c out)
  from loop_fails_conn [OF loop_fails(1,2)] assms show ?thesis
    by (auto simp: loop_fails(3) dest: in_set_takeD)
next
  case (commit_fails c1 c2 out2 e c)
  from commit_fails_conn [OF commit_fails(1,2,3)] assms show ?thesis
    by (auto simp: commit_fails(4))
next
  case (count_fails c1 c2 out2 c3 c4 out4 e c)
  note c3 = after_commit(1) [OF count_fails(1,2,3)]
  from create_index_step_result [OF count_fails(4)] execute_Inl [OF count_fails(5)] assms
  show ?thesis
    by (auto simp: count_fails(6) c3)
next
  case (finished c1 c2 out2 c3 c4 out4 c5)
  note c3 = after_commit(1) [OF finished(1,2,3)]
  from create_index_step_result [OF finished(4)] execute_count_Inr [OF finished(5)] assms
  show ?thesis
    by (auto simp: finished(6) c3)
qed

lemma set_sequence_untouched:
  "a (task_id t) = None \<Longrightarrow> set_sequence a t = t"
  by (simp add: set_sequence_def)

lemma updates_of_append: "updates_of (xs @ ys) = updates_of xs @ updates_of ys"
  by (induction xs rule: updates_of.induct) simp_all

lemma updates_of_map: "updates_of (map (\<lambda>(s, tid). UpdateSeq s tid) us) = us"
  by (induction us) auto

lemma sequences_nth:
  "i < length ps \<Longrightarrow>
     sequences m ps ! i =
       (case m (ps ! i) of None \<Rightarrow> 0 | Some n \<Rightarrow> n)
         + int (length (filter (\<lambda>q. q = ps ! i) (take (Suc i) ps)))"
proof (induction ps arbitrary: m i)
  case Nil
  then show ?case by simp
next
  case (Cons p ps)
  show ?case
  proof (cases i)
    case 0
    then show ?thesis by (simp add: Let_def split: option.splits)
  next
    case (Suc j)
    with Cons.prems have j: "j < length ps" by simp
    define s where "s = (case m p of None \<Rightarrow> (1::int) | Some n \<Rightarrow> n + 1)"
    have unfold: "sequences m (p # ps) = s # sequences (m(p \<mapsto> s)) ps"
      by (simp add: s_def Let_def)
    have base: "(case (m(p \<mapsto> s)) (ps ! j) of None \<Rightarrow> 0 | Some n \<Rightarrow> n) =
        (case m (ps ! j) of None \<Rightarrow> 0 | Some n \<Rightarrow> n) + (if p = ps ! j then 1 else 0)"
      by (simp add: s_def split: option.splits)
    have cnt: "length (filter (\<lambda>q. q = ps ! j) (take (Suc (Suc j)) (p # ps))) =
        (if p = ps ! j then 1 else 0) + length (filter (\<lambda>q. q = ps ! j) (take (Suc j) ps))"
      by simp
    have "sequences m (p # ps) ! i = sequences (m(p \<mapsto> s)) ps ! j"
      unfolding unfold Suc by simp
    also note Cons.IH [OF j, of "m(p \<mapsto> s)"]
    finally show ?thesis
      unfolding base Suc cnt by simp
  qed
qed

lemma count_take_mono:
  "i \<le> j \<Longrightarrow> length (filter P (take i xs)) \<le> length (filter P (take j xs))"
proof -
  assume "i \<le> j"
  then obtain d where "j = i + d" by (auto simp: le_iff_add)
  then show ?thesis by (simp add: take_add)
qed

lemma count_take_Suc:
  "j < length xs \<Longrightarrow>
     length (filter P (take (Suc j) xs)) =
       length (filter P (take j xs)) + (if P (xs ! j) then 1 else 0)"
  by (simp add: take_Suc_conv_app_nth)

lemma sequences_increase:
  assumes "i < j" "j < length ps" "ps ! i = ps ! j"
  shows "sequences m ps ! i < sequences m ps ! j"
proof -
  let ?P = "\<lambda>q. q = ps ! j"
  from assms have i: "i < length ps" by simp
  have "length (filter ?P (take (Suc i) ps)) \<le> length (filter ?P (take j ps))"
    using assms(1) by (intro count_take_mono) simp
  also have "\<dots> < length (filter ?P (take (Suc j) ps))"
    using assms(2) by (simp add: count_take_Suc)
  finally show ?thesis
    unfolding sequences_nth [OF i] sequences_nth [OF assms(2)] assms(3) by simp
qed

lemma sequences_inj:
  assumes "i < length ps" "j < length ps" "ps ! i = ps ! j"
    and "sequences m ps ! i = sequences m ps ! j"
  shows "i = j"
proof (rule ccontr)
  assume "i \<noteq> j"
  then consider "i < j" | "j < i" by linarith
  then show False
  proof cases
    case 1
    from sequences_increase [OF 1 assms(2,3), of m] assms(4) show False by simp
  next
    case 2
    from sequences_increase [OF 2 assms(1) assms(3) [symmetric], of m] assms(4) show False by simp
  qed
qed

lemma sequences_first:
  assumes "i < length ps" "\<forall>j < i. ps ! j \<noteq> ps ! i"
  shows "sequences Map.empty ps ! i = 1"
proof -
  have "filter (\<lambda>q. q = ps ! i) (take i ps) = []"
    using assms by (auto simp: filter_empty_conv in_set_conv_nth)
  then show ?thesis
    unfolding sequences_nth [OF assms(1)] using assms(1)
    by (simp add: take_Suc_conv_app_nth)
qed

lemma sequences_next:
  assumes "j < i" "i < length ps" "ps ! j = ps ! i"
    and "\<forall>k. j < k \<and> k < i \<longrightarrow> ps ! k \<noteq> ps ! i"
  shows "sequences m ps ! i = sequences m ps ! j + 1"
proof -
  let ?P = "\<lambda>q. q = ps ! i"
  from assms have j: "j < length ps" by simp
  have split: "take i ps = take (Suc j) ps @ drop (Suc j) (take i ps)"
  proof -
    have "take (Suc j) (take i ps) = take (Suc j) ps" using assms(1) by (simp add: min_def)
    then show ?thesis by (metis append_take_drop_id)
  qed
  have "filter ?P (drop (Suc j) (take i ps)) = []"
  proof -
    have "\<forall>x \<in> set (drop (Suc j) (take i ps)). x \<noteq> ps ! i"
    proof
      fix x assume "x \<in> set (drop (Suc j) (take i ps))"
      then obtain n where n: "n < length (drop (Suc j) (take i ps))"
        and x: "x = drop (Suc j) (take i ps) ! n"
        by (auto simp: in_set_conv_nth)
      from n assms(2) have b: "Suc j + n < i" by simp
      with x assms(2) have "x = ps ! (Suc j + n)" by simp
      with b assms(4) show "x \<noteq> ps ! i" by simp
    qed
    then show ?thesis by (simp add: filter_empty_conv)
  qed
  then have "length (filter ?P (take i ps)) = length (filter ?P (take (Suc j) ps))"
    by (subst split) simp
  then show ?thesis
    unfolding sequences_nth [OF assms(2)] sequences_nth [OF j] assms(3)
    using assms(2) by (simp add: count_take_Suc)
qed

lemma finished_run:
  assumes "backfill F (connect db ix) = Finished c out"
  shows "committed c = apply_updates (issued Map.empty (select_tasks ix db)) db"
    and "pending c = apply_updates (issued Map.empty (select_tasks ix db)) db"
    and "updates_of (calls c) = issued Map.empty (select_tasks ix db)"
    and "\<exists>l. out = map (\<lambda>((tid, pid), s). Progress tid pid s)
                       (zip (select_tasks ix db) (sequences Map.empty (map snd (select_tasks ix db))))
                   @ [l, Summary (count_sequenced (committed c))]
               \<and> (l = IndexCreated \<or> (\<exists>e. l = IndexWarning e))"
proof -
  have "committed c = apply_updates (issued Map.empty (select_tasks ix db)) db
      \<and> pending c = apply_updates (issued Map.empty (select_tasks ix db)) db
      \<and> updates_of (calls c) = issued Map.empty (select_tasks ix db)
      \<and> (\<exists>l. out = map (\<lambda>((tid, pid), s). Progress tid pid s)
                       (zip (select_tasks ix db) (sequences Map.empty (map snd (select_tasks ix db))))
                   @ [l, Summary (count_sequenced (committed c))]
               \<and> (l = IndexCreated \<or> (\<exists>e. l = IndexWarning e)))"
  proof (cases rule: backfill_cases [of F "connect db ix"])
    case (finished c1 c2 out2 c3 c4 out4 c5)
    note c3 = after_commit(1) [OF finished(1,2,3)]
    note out2 = after_commit(2) [OF finished(1,2,3)]
    from finished(6) assms have c: "c = c5"
      and out: "out = out4 @ [Summary (count_sequenced (pending c5))]" by simp_all
    note ixs = create_index_step_result [OF finished(4)]
    note c5 = execute_count_Inr [OF finished(5)]
    have pend: "pending c5 = apply_updates (issued Map.empty (select_tasks ix db)) db"
      using ixs by (simp add: c5 c3)
    have comm: "committed c5 = apply_updates (issued Map.empty (select_tasks ix db)) db"
      using ixs by (auto simp: c5 c3)
    have ups: "updates_of (calls c5) = issued Map.empty (select_tasks ix db)"
      using ixs by (auto simp: c5 c3 updates_of_append updates_of_map)
    have lines: "\<exists>l. out4 = out2 @ [l] \<and> (l = IndexCreated \<or> (\<exists>e. l = IndexWarning e))"
      using ixs by auto
    show ?thesis
      unfolding c out using pend comm ups lines by (auto simp: out2)
  qed (use assms in simp_all)
  then show "committed c = apply_updates (issued Map.empty (select_tasks ix db)) db"
    and "pending c = apply_updates (issued Map.empty (select_tasks ix db)) db"
    and "updates_of (calls c) = issued Map.empty (select_tasks ix db)"
    and "\<exists>l. out = map (\<lambda>((tid, pid), s). Progress tid pid s)
                       (zip (select_tasks ix db) (sequences Map.empty (map snd (select_tasks ix db))))
                   @ [l, Summary (count_sequenced (committed c))]
               \<and> (l = IndexCreated \<or> (\<exists>e. l = IndexWarning e))"
    by blast+
qed

lemma select_tasks_distinct:
  assumes "distinct (map task_id db)"
  shows "distinct (map fst (select_tasks ix db))"
proof -
  have "mset (map fst (select_tasks ix db)) = mset (map task_id (filter (\<lambda>t. deleted_at t = None) db))"
    unfolding select_tasks_ids by simp
  moreover from assms have "distinct (map task_id (filter (\<lambda>t. deleted_at t = None) db))"
    by (rule distinct_map_filter)
  ultimately show ?thesis by (metis mset_eq_imp_distinct_iff)
qed

lemma issued_nth:
  "i < length tasks \<Longrightarrow>
     issued m tasks ! i = (sequences m (map snd tasks) ! i, fst (tasks ! i))"
  by (simp add: issued_def)

lemma length_issued [simp]: "length (issued m tasks) = length tasks"
  by (simp add: issued_def)

lemma once_in_distinct:
  assumes "distinct (map f xs)" "a \<in> f ` set xs"
  shows "length (filter (\<lambda>u. f u = a) xs) = 1"
proof -
  have "length (filter (\<lambda>u. f u = a) xs) = length (filter (\<lambda>v. v = a) (map f xs))"
    by (simp add: filter_map comp_def)
  also have "\<dots> = card ({v. v = a} \<inter> set (map f xs))"
    using assms(1) by (rule distinct_length_filter)
  also have "{v. v = a} \<inter> set (map f xs) = {a}" using assms(2) by auto
  finally show ?thesis by simp
qed

lemma select_tasks_scan: "select_tasks ix db = map (\<lambda>t. (task_id t, project_id t)) (scan ix db)"
  by (simp add: select_tasks_def scan_def)

lemma set_scan: "set (scan ix db) = {t \<in> set db. deleted_at t = None}"
  by (auto simp: scan_def)

lemma mset_scan: "mset (scan ix db) = filter_mset (\<lambda>t. deleted_at t = None) (mset db)"
  by (simp add: scan_def)

lemma sorted_without_last_key:
  fixes f :: "'a \<Rightarrow> int" and g :: "'a \<Rightarrow> int" and h :: "'a \<Rightarrow> int option"
  assumes "sorted (map (\<lambda>t. (f t, g t, h t)) xs)"
  shows "sorted (map (\<lambda>t. (f t, g t)) xs)"
proof -
  from assms have "sorted_wrt (\<lambda>x y. (f x, g x, h x) \<le> (f y, g y, h y)) xs"
    by (simp add: sorted_map)
  then have "sorted_wrt (\<lambda>x y. (f x, g x) \<le> (f y, g y)) xs"
    by (rule sorted_wrt_mono_rel [rotated]) auto
  then show ?thesis by (simp add: sorted_map)
qed

lemma sorted_order_by:
  "sorted (map (\<lambda>t. (project_id t, created_at t)) (order_by ix rows))"
proof (cases ix)
  case True
  have "sorted (map (\<lambda>t. (project_id t, created_at t, project_sequence t))
          (sort_key (\<lambda>t. (project_id t, created_at t, project_sequence t)) rows))"
    by (rule sorted_sort_key)
  then have "sorted (map (\<lambda>t. (project_id t, created_at t))
          (sort_key (\<lambda>t. (project_id t, created_at t, project_sequence t)) rows))"
    by (rule sorted_without_last_key)
  with True show ?thesis by (simp add: order_by_def)
next
  case False
  then show ?thesis by (simp add: order_by_def)
qed

lemma sorted_scan: "sorted (map (\<lambda>t. (project_id t, created_at t)) (scan ix db))"
  unfolding scan_def by (rule sorted_order_by)

lemma issued_scan:
  "issued Map.empty (select_tasks ix db) =
     zip (sequences Map.empty (map project_id (scan ix db))) (map task_id (scan ix db))"
  by (simp add: issued_def select_tasks_scan comp_def)

lemma assigned_scan:
  assumes "distinct (map task_id db)" "x < length (scan ix db)"
  shows "assigned (issued Map.empty (select_tasks ix db)) (task_id (scan ix db ! x))
           = Some (sequences Map.empty (map project_id (scan ix db)) ! x)"
proof (rule assigned_distinct)
  from select_tasks_distinct [OF assms(1)]
  show "distinct (map snd (issued Map.empty (select_tasks ix db)))"
    unfolding issued_ids .
  have "issued Map.empty (select_tasks ix db) ! x
          = (sequences Map.empty (map project_id (scan ix db)) ! x, task_id (scan ix db ! x))"
    unfolding issued_scan using assms(2) by simp
  moreover have "x < length (issued Map.empty (select_tasks ix db))"
    using assms(2) by (simp add: select_tasks_scan)
  ultimately show "(sequences Map.empty (map project_id (scan ix db)) ! x, task_id (scan ix db ! x))
      \<in> set (issued Map.empty (select_tasks ix db))"
    by (metis nth_mem)
qed

lemma set_sequence_scan:
  assumes "distinct (map task_id db)" "x < length (scan ix db)"
  shows "set_sequence (assigned (issued Map.empty (select_tasks ix db))) (scan ix db ! x)
           = (scan ix db ! x)\<lparr>project_sequence :=
                Some (sequences Map.empty (map project_id (scan ix db)) ! x)\<rparr>"
  by (simp add: set_sequence_def assigned_scan [OF assms])

lemma finished_row:
  assumes "backfill F (connect db ix) = Finished c out" "i < length db"
  shows "committed c ! i = set_sequence (assigned (issued Map.empty (select_tasks ix db))) (db ! i)"
  unfolding finished_run(1) [OF assms(1)] apply_updates_closed using assms(2) by simp

lemma live_in_scan:
  assumes "i < length db" "deleted_at (db ! i) = None"
  obtains x where "x < length (scan ix db)" "scan ix db ! x = db ! i"
proof -
  from assms have "db ! i \<in> set (scan ix db)" by (simp add: set_scan)
  then show ?thesis using that by (auto simp: in_set_conv_nth)
qed

lemma sequences_project:
  "map snd (filter (\<lambda>(t, s). f t = p) (zip xs (sequences m (map f xs)))) =
     [(case m p of None \<Rightarrow> 0 | Some n \<Rightarrow> n) + 1 ..
      (case m p of None \<Rightarrow> 0 | Some n \<Rightarrow> n) + int (length (filter (\<lambda>t. f t = p) xs))]"
proof (induction xs arbitrary: m)
  case Nil
  show ?case by simp
next
  case (Cons x xs)
  define s where "s = (case m (f x) of None \<Rightarrow> (1::int) | Some n \<Rightarrow> n + 1)"
  define b where "b = (case m p of None \<Rightarrow> (0::int) | Some n \<Rightarrow> n)"
  define n where "n = int (length (filter (\<lambda>t. f t = p) xs))"
  have unfold: "sequences m (map f (x # xs)) = s # sequences (m(f x \<mapsto> s)) (map f xs)"
    by (simp add: s_def Let_def)
  have baseT: "(case (m(f x \<mapsto> s)) p of None \<Rightarrow> 0 | Some n \<Rightarrow> n) = b + 1" if "f x = p"
    using that by (auto simp: s_def b_def split: option.splits)
  have baseF: "(case (m(f x \<mapsto> s)) p of None \<Rightarrow> 0 | Some n \<Rightarrow> n) = b" if "f x \<noteq> p"
    using that by (auto simp: s_def b_def split: option.splits)
  note IH = Cons.IH [of "m(f x \<mapsto> s)", folded n_def]
  have n0: "0 \<le> n" by (simp add: n_def)
  let ?rest = "map snd (filter (\<lambda>(t, s). f t = p) (zip xs (sequences (m(f x \<mapsto> s)) (map f xs))))"
  have zipped: "map snd (filter (\<lambda>(t, s). f t = p) (zip (x # xs) (s # sequences (m(f x \<mapsto> s)) (map f xs))))
      = (if f x = p then s # ?rest else ?rest)"
    by simp
  show ?case
  proof (cases "f x = p")
    case True
    then have s: "s = b + 1" by (simp add: s_def b_def split: option.splits)
    have "[b + 1 .. b + (1 + n)] = (b + 1) # [b + 1 + 1 .. b + 1 + n]"
      using n0 by (subst upto_rec1) (simp_all add: add.commute add.left_commute)
    moreover from IH have "?rest = [b + 1 + 1 .. b + 1 + n]" unfolding baseT [OF True] .
    moreover have "int (length (filter (\<lambda>t. f t = p) (x # xs))) = 1 + n"
      using True by (simp add: n_def)
    ultimately show ?thesis
      unfolding unfold zipped b_def [symmetric] using True by (simp add: s)
  next
    case False
    from IH have "?rest = [b + 1 .. b + n]" unfolding baseF [OF False] .
    moreover have "int (length (filter (\<lambda>t. f t = p) (x # xs))) = n"
      using False by (simp add: n_def)
    ultimately show ?thesis
      unfolding unfold zipped b_def [symmetric] using False by simp
  qed
qed

lemma map_fst_filter_zip:
  "length ys = length xs \<Longrightarrow> map fst (filter (\<lambda>(t, s). P t) (zip xs ys)) = filter P xs"
proof (induction xs arbitrary: ys)
  case Nil
  show ?case by simp
next
  case (Cons x xs)
  then obtain y ys' where "ys = y # ys'" "length ys' = length xs" by (cases ys) auto
  with Cons.IH [of ys'] show ?case by simp
qed

lemma scan_project_sequences:
  assumes "distinct (map task_id db)"
  shows "map (\<lambda>t. project_sequence (set_sequence (assigned (issued Map.empty (select_tasks ix db))) t))
           (filter (\<lambda>t. project_id t = p) (scan ix db))
         = map Some [1 .. int (length (filter (\<lambda>t. project_id t = p) (scan ix db)))]"
proof -
  let ?A = "assigned (issued Map.empty (select_tasks ix db))"
  let ?seqs = "sequences Map.empty (map project_id (scan ix db))"
  let ?Z = "filter (\<lambda>(t, s). project_id t = p) (zip (scan ix db) ?seqs)"
  have Z1: "map fst ?Z = filter (\<lambda>t. project_id t = p) (scan ix db)"
    by (rule map_fst_filter_zip) simp
  have Z2: "map snd ?Z = [1 .. int (length (filter (\<lambda>t. project_id t = p) (scan ix db)))]"
    using sequences_project [of project_id p "scan ix db" Map.empty] by simp
  have each: "project_sequence (set_sequence ?A t) = Some s" if "(t, s) \<in> set ?Z" for t s
  proof -
    from that have "(t, s) \<in> set (zip (scan ix db) ?seqs)" by simp
    then obtain x where x: "x < length (scan ix db)" "scan ix db ! x = t" "?seqs ! x = s"
      by (auto simp: set_zip)
    from set_sequence_scan [OF assms x(1)] x(2,3) show ?thesis by simp
  qed
  have "map (\<lambda>t. project_sequence (set_sequence ?A t)) (map fst ?Z) = map Some (map snd ?Z)"
    using each by (auto simp: comp_def)
  then show ?thesis unfolding Z1 Z2 .
qed

lemma set_sequence_columns [simp]:
  "task_id (set_sequence a t) = task_id t"
  "project_id (set_sequence a t) = project_id t"
  "created_at (set_sequence a t) = created_at t"
  "deleted_at (set_sequence a t) = deleted_at t"
  by (simp_all add: set_sequence_def split: option.splits)

lemma dense_per_project:
  assumes "backfill F (connect db ix) = Finished c out" and "distinct (map task_id db)"
  shows "mset (map project_sequence
                 (filter (\<lambda>t. project_id t = p \<and> deleted_at t = None) (committed c)))
         = mset (map Some
                 [1 .. int (length (filter (\<lambda>t. project_id t = p \<and> deleted_at t = None) db))])"
proof -
  let ?A = "assigned (issued Map.empty (select_tasks ix db))"
  let ?G = "set_sequence ?A"
  let ?P = "\<lambda>t. project_id t = p \<and> deleted_at t = None"
  have comm: "committed c = map ?G db"
    unfolding finished_run(1) [OF assms(1)] apply_updates_closed ..
  have "filter ?P (map ?G db) = map ?G (filter ?P db)"
    by (simp add: filter_map comp_def)
  then have eq1: "map project_sequence (filter ?P (committed c))
      = map (\<lambda>t. project_sequence (?G t)) (filter ?P db)"
    unfolding comm by (simp add: comp_def)
  have perm: "mset (filter ?P db) = mset (filter (\<lambda>t. project_id t = p) (scan ix db))"
    by (auto simp: mset_scan filter_filter_mset intro: filter_mset_cong)
  from perm have len: "length (filter (\<lambda>t. project_id t = p) (scan ix db)) = length (filter ?P db)"
    by (rule mset_eq_length [symmetric])
  have "mset (map project_sequence (filter ?P (committed c)))
      = image_mset (\<lambda>t. project_sequence (?G t)) (mset (filter ?P db))"
    unfolding eq1 by (rule mset_map)
  also have "\<dots> = mset (map (\<lambda>t. project_sequence (?G t)) (filter (\<lambda>t. project_id t = p) (scan ix db)))"
    unfolding perm by (rule mset_map [symmetric])
  also have "\<dots> = mset (map Some [1 .. int (length (filter ?P db))])"
    unfolding scan_project_sequences [OF assms(2)] len ..
  finally show ?thesis .
qed

lemma execute_no_faults_Inl:
  "execute no_faults s c = Inl (e, c') \<Longrightarrow>
     (\<exists>q tid. s = UpdateSeq q tid \<and> index c \<and> \<not> unique_ok (update_seq q tid (pending c)))
     \<or> s = CreateUniqueIndex"
  by (cases s) (auto simp: execute_def no_faults_def Let_def split: if_splits)

lemma apply_updates_Cons:
  "apply_updates ((s, tid) # us) rows = apply_updates us (update_seq s tid rows)"
  by (simp add: apply_updates_def)

lemma assign_loop_no_faults:
  assumes "index c \<longrightarrow> (\<forall>k. 0 < k \<and> k \<le> length tasks
             \<longrightarrow> unique_ok (apply_updates (take k (issued m tasks)) (pending c)))"
  shows "\<exists>c' out'. assign_loop no_faults m tasks c out = Inr (c', out')"
  using assms
proof (induction tasks arbitrary: m c out)
  case Nil
  show ?case by simp
next
  case (Cons a tasks)
  obtain tid pid where a: "a = (tid, pid)" by (cases a)
  define s where "s = (case m pid of None \<Rightarrow> (1::int) | Some n \<Rightarrow> n + 1)"
  have step: "issued m (a # tasks) = (s, tid) # issued (m(pid \<mapsto> s)) tasks"
    by (simp add: a issued_Cons s_def)
  have first: "index c \<longrightarrow> unique_ok (update_seq s tid (pending c))"
  proof
    assume "index c"
    with Cons.prems have "unique_ok (apply_updates (take 1 (issued m (a # tasks))) (pending c))"
      by simp
    then show "unique_ok (update_seq s tid (pending c))"
      unfolding step by (simp add: apply_updates_def)
  qed
  obtain c1 where ex: "execute no_faults (UpdateSeq s tid) c = Inr c1"
  proof (cases "execute no_faults (UpdateSeq s tid) c")
    case (Inl b)
    then have "execute no_faults (UpdateSeq s tid) c = Inl (fst b, snd b)" by simp
    from execute_no_faults_Inl [OF this] first show ?thesis by simp
  next
    case (Inr c1)
    then show ?thesis by (rule that)
  qed
  from execute_update_Inr [OF ex]
  have c1: "c1 = c\<lparr>pending := update_seq s tid (pending c), calls := calls c @ [UpdateSeq s tid]\<rparr>"
    by simp
  have rest: "index c1 \<longrightarrow> (\<forall>k. 0 < k \<and> k \<le> length tasks
             \<longrightarrow> unique_ok (apply_updates (take k (issued (m(pid \<mapsto> s)) tasks)) (pending c1)))"
  proof (intro impI allI)
    fix k
    assume ix: "index c1" and k: "0 < k \<and> k \<le> length tasks"
    from ix have "index c" by (simp add: c1)
    with Cons.prems k
    have "unique_ok (apply_updates (take (Suc k) (issued m (a # tasks))) (pending c))"
      by simp
    then show "unique_ok (apply_updates (take k (issued (m(pid \<mapsto> s)) tasks)) (pending c1))"
      unfolding step by (simp add: apply_updates_Cons c1)
  qed
  from Cons.IH [OF rest, of "out @ [Progress tid pid s]"] obtain c' out' where
    "assign_loop no_faults (m(pid \<mapsto> s)) tasks c1 (out @ [Progress tid pid s]) = Inr (c', out')"
    by blast
  then have "assign_loop no_faults m (a # tasks) c out = Inr (c', out')"
    using ex by (simp add: a s_def Let_def)
  then show ?case by blast
qed

lemma no_faults_finishes:
  assumes "ix \<longrightarrow> (\<forall>k. 0 < k \<and> k \<le> length (select_tasks ix db)
             \<longrightarrow> unique_ok (apply_updates (take k (issued Map.empty (select_tasks ix db))) db))"
  shows "\<exists>c out. backfill no_faults (connect db ix) = Finished c out"
proof (cases rule: backfill_cases [of no_faults "connect db ix"])
  case (select_fails e c)
  from execute_no_faults_Inl [OF select_fails(1)] show ?thesis by simp
next
  case (loop_fails c1 e c out)
  note c1 = execute_select_connect [OF loop_fails(1)]
  from assms have "index c1 \<longrightarrow> (\<forall>k. 0 < k \<and> k \<le> length (select_tasks (index c1) (pending c1))
       \<longrightarrow> unique_ok (apply_updates (take k (issued Map.empty (select_tasks (index c1) (pending c1)))) (pending c1)))"
    by (simp add: c1)
  from assign_loop_no_faults [OF this, of "[]"] loop_fails(2) show ?thesis by simp
next
  case (commit_fails c1 c2 out2 e c)
  from execute_no_faults_Inl [OF commit_fails(3)] show ?thesis by simp
next
  case (count_fails c1 c2 out2 c3 c4 out4 e c)
  from execute_no_faults_Inl [OF count_fails(5)] show ?thesis by simp
next
  case (finished c1 c2 out2 c3 c4 out4 c5)
  then show ?thesis by blast
qed

lemma issued_member:
  assumes "(s, tid) \<in> set (issued Map.empty (select_tasks ix db))"
  obtains x where "x < length (scan ix db)"
    and "sequences Map.empty (map project_id (scan ix db)) ! x = s"
    and "task_id (scan ix db ! x) = tid"
  using assms unfolding issued_scan by (auto simp: set_zip)

lemma prefix_unique:
  assumes "distinct (map task_id db)" and "\<forall>t \<in> set db. project_sequence t = None"
  shows "unique_ok (apply_updates (take k (issued Map.empty (select_tasks ix db))) db)"
proof -
  let ?us = "issued Map.empty (select_tasks ix db)"
  let ?A = "assigned (take k ?us)"
  let ?seqs = "sequences Map.empty (map project_id (scan ix db))"
  let ?f = "\<lambda>t. (project_id t, project_sequence t)"
  let ?rows = "map (set_sequence ?A) db"
  from assms(1) have inj: "inj_on task_id (set db)" by (simp add: distinct_map)
  have "distinct (map task_id ?rows)" using assms(1) by (simp add: comp_def)
  then have "distinct ?rows" unfolding distinct_map by (rule conjunct1)
  then have d: "distinct (filter (\<lambda>t. project_sequence t \<noteq> None) ?rows)"
    by (rule distinct_filter)
  have pos: "\<exists>x < length (scan ix db). scan ix db ! x = t \<and> project_sequence (set_sequence ?A t) = Some (?seqs ! x)"
    if t: "t \<in> set db" and nn: "project_sequence (set_sequence ?A t) \<noteq> None" for t
  proof -
    from t assms(2) have none: "project_sequence t = None" by simp
    with nn obtain s where s: "?A (task_id t) = Some s"
      by (cases "?A (task_id t)") (auto simp: set_sequence_def)
    then have "(s, task_id t) \<in> set ?us"
      by (auto dest!: assigned_Some_mem in_set_takeD)
    from issued_member [OF this] obtain x where x: "x < length (scan ix db)"
      "?seqs ! x = s" "task_id (scan ix db ! x) = task_id t" by blast
    from x(1) have "scan ix db ! x \<in> set (scan ix db)" by simp
    then have "scan ix db ! x \<in> set db" by (simp add: set_scan)
    with inj x(3) t have "scan ix db ! x = t" by (auto dest: inj_onD)
    moreover from s x(2) have "project_sequence (set_sequence ?A t) = Some (?seqs ! x)"
      by (simp add: set_sequence_def)
    ultimately show ?thesis using x(1) by blast
  qed
  have "inj_on ?f (set (filter (\<lambda>t. project_sequence t \<noteq> None) ?rows))"
  proof (rule inj_onI)
    fix r1 r2
    assume r1: "r1 \<in> set (filter (\<lambda>t. project_sequence t \<noteq> None) ?rows)"
      and r2: "r2 \<in> set (filter (\<lambda>t. project_sequence t \<noteq> None) ?rows)"
      and eq: "?f r1 = ?f r2"
    from r1 obtain t1 where t1: "t1 \<in> set db" "r1 = set_sequence ?A t1"
      "project_sequence (set_sequence ?A t1) \<noteq> None" by auto
    from r2 obtain t2 where t2: "t2 \<in> set db" "r2 = set_sequence ?A t2"
      "project_sequence (set_sequence ?A t2) \<noteq> None" by auto
    from pos [OF t1(1,3)] obtain x where x: "x < length (scan ix db)" "scan ix db ! x = t1"
      "project_sequence (set_sequence ?A t1) = Some (?seqs ! x)" by blast
    from pos [OF t2(1,3)] obtain y where y: "y < length (scan ix db)" "scan ix db ! y = t2"
      "project_sequence (set_sequence ?A t2) = Some (?seqs ! y)" by blast
    from eq have "project_id t1 = project_id t2" and "?seqs ! x = ?seqs ! y"
      using x(3) y(3) by (simp_all add: t1(2) t2(2))
    with x y have "x = y"
      by (intro sequences_inj [of x "map project_id (scan ix db)" y Map.empty]) simp_all
    with x(2) y(2) show "r1 = r2" by (simp add: t1(2) t2(2))
  qed
  with d have "distinct (map ?f (filter (\<lambda>t. project_sequence t \<noteq> None) ?rows))"
    by (simp add: distinct_map)
  then show ?thesis unfolding unique_ok_def apply_updates_closed .
qed

lemma length_filter_or:
  "length (filter (\<lambda>t. P t \<or> Q t) xs)
     = length (filter P xs) + length (filter (\<lambda>t. \<not> P t \<and> Q t) xs)"
  by (induction xs) auto

lemma live_row_sequenced:
  assumes "distinct (map task_id db)" "t \<in> set db" "deleted_at t = None"
  shows "project_sequence (set_sequence (assigned (issued Map.empty (select_tasks ix db))) t) \<noteq> None"
proof -
  from assms(2,3) have "t \<in> set (scan ix db)" by (simp add: set_scan)
  then obtain x where x: "x < length (scan ix db)" "scan ix db ! x = t"
    by (auto simp: in_set_conv_nth)
  from set_sequence_scan [OF assms(1) x(1)] x(2) show ?thesis by simp
qed

lemma deleted_row_kept:
  assumes "distinct (map task_id db)" "t \<in> set db" "deleted_at t \<noteq> None"
  shows "set_sequence (assigned (issued Map.empty (select_tasks ix db))) t = t"
proof -
  have "snd ` set (issued Map.empty (select_tasks ix db))
          = set (map snd (issued Map.empty (select_tasks ix db)))" by simp
  also have "\<dots> = fst ` set (select_tasks ix db)" unfolding issued_ids by simp
  finally have "task_id t \<notin> snd ` set (issued Map.empty (select_tasks ix db))"
    using deleted_not_selected [OF assms] by simp
  from assigned_None [OF this] show ?thesis by (rule set_sequence_untouched)
qed

lemma finished_count:
  assumes "backfill F (connect db ix) = Finished c out" and "distinct (map task_id db)"
  shows "count_sequenced (committed c)
    = length (filter (\<lambda>t. deleted_at t = None) db)
      + length (filter (\<lambda>t. deleted_at t \<noteq> None \<and> project_sequence t \<noteq> None) db)"
proof -
  let ?G = "set_sequence (assigned (issued Map.empty (select_tasks ix db)))"
  have comm: "committed c = map ?G db"
    unfolding finished_run(1) [OF assms(1)] apply_updates_closed ..
  have "filter (\<lambda>t. project_sequence (?G t) \<noteq> None) db
      = filter (\<lambda>t. deleted_at t = None \<or> project_sequence t \<noteq> None) db"
  proof (rule filter_cong [OF refl])
    fix t assume t: "t \<in> set db"
    show "(project_sequence (?G t) \<noteq> None) = (deleted_at t = None \<or> project_sequence t \<noteq> None)"
    proof (cases "deleted_at t = None")
      case True
      with live_row_sequenced [OF assms(2) t] show ?thesis by simp
    next
      case False
      with deleted_row_kept [OF assms(2) t] show ?thesis by auto
    qed
  qed
  then have "count_sequenced (committed c)
      = length (filter (\<lambda>t. deleted_at t = None \<or> project_sequence t \<noteq> None) db)"
    unfolding comm count_sequenced_def by (simp add: filter_map comp_def)
  then show ?thesis unfolding length_filter_or by simp
qed









lemma filter_eq_single:
  "distinct ys \<Longrightarrow> k \<in> set ys \<Longrightarrow> filter (\<lambda>x. x = k) ys = [k]"
  by (induction ys) (auto simp: filter_empty_conv)

lemma sort_key_unique:
  assumes "mset xs = mset ys" and "sorted (map f ys)" and "distinct (map f ys)"
  shows "sort_key f xs = ys"
proof (rule properties_for_sort_key)
  show "mset ys = mset xs" using assms(1) by simp
  show "sorted (map f ys)" by fact
  fix k assume k: "k \<in> set ys"
  from assms(3) have d: "distinct ys" and inj: "inj_on f (set ys)"
    by (simp_all add: distinct_map)
  have "filter (\<lambda>x. f k = f x) ys = filter (\<lambda>x. x = k) ys"
    using inj k by (intro filter_cong) (auto dest: inj_onD)
  then have ys: "filter (\<lambda>x. f k = f x) ys = [k]"
    using filter_eq_single [OF d k] by simp
  have "mset (filter (\<lambda>x. f k = f x) xs) = filter_mset (\<lambda>x. f k = f x) (mset xs)" by simp
  also have "\<dots> = mset (filter (\<lambda>x. f k = f x) ys)" unfolding assms(1) by simp
  also have "\<dots> = {#k#}" unfolding ys by simp
  finally have "mset (filter (\<lambda>x. f k = f x) xs) = {#k#}" .
  then have "filter (\<lambda>x. f k = f x) xs = [k]" by (simp only: mset_single_iff)
  with ys show "filter (\<lambda>x. f k = f x) ys = filter (\<lambda>x. f k = f x) xs" by simp
qed

lemma scan_unique:
  assumes "mset (filter (\<lambda>t. deleted_at t = None) db) = mset ys"
    and "sorted (map (\<lambda>t. (project_id t, created_at t)) ys)"
    and "distinct (map (\<lambda>t. (project_id t, created_at t)) ys)"
  shows "scan ix db = ys"
proof (cases ix)
  case False
  then show ?thesis
    unfolding scan_def order_by_def using sort_key_unique [OF assms] by simp
next
  case True
  let ?k2 = "\<lambda>t. (project_id t, created_at t)"
  let ?k3 = "\<lambda>t. (project_id t, created_at t, project_sequence t)"
  from assms(2,3) have "sorted_wrt (<) (map ?k2 ys)" by (simp add: strict_sorted_iff)
  then have "sorted_wrt (\<lambda>x y. ?k2 x < ?k2 y) ys" by (simp add: sorted_wrt_map)
  then have "sorted_wrt (\<lambda>x y. ?k3 x < ?k3 y) ys"
    by (rule sorted_wrt_mono_rel [rotated]) auto
  then have "sorted_wrt (<) (map ?k3 ys)" by (simp add: sorted_wrt_map)
  then have "sorted (map ?k3 ys)" and "distinct (map ?k3 ys)"
    by (simp_all add: strict_sorted_iff)
  from sort_key_unique [OF assms(1) this] True show ?thesis
    by (simp add: scan_def order_by_def)
qed

lemma unset_run_finishes:
  assumes "distinct (map task_id db)" and "\<forall>t \<in> set db. project_sequence t = None"
  shows "\<exists>c out. backfill no_faults (connect db ix) = Finished c out"
proof -
  from prefix_unique [OF assms]
  have "ix \<longrightarrow> (\<forall>k. 0 < k \<and> k \<le> length (select_tasks ix db)
             \<longrightarrow> unique_ok (apply_updates (take k (issued Map.empty (select_tasks ix db))) db))"
    by blast
  then show ?thesis by (rule no_faults_finishes)
qed

lemma execute_Inr_no_fault:
  "execute F s c = Inr c' \<Longrightarrow> F (length (calls c)) = None"
  by (auto simp: execute_def Let_def split: option.splits)

lemma assign_loop_Inr_clean:
  "assign_loop F m tasks c out = Inr (c', out') \<Longrightarrow>
     (\<forall>j < length tasks. F (length (calls c) + j) = None)
     \<and> (index c \<longrightarrow> (\<forall>k. 0 < k \<and> k \<le> length tasks
            \<longrightarrow> unique_ok (apply_updates (take k (issued m tasks)) (pending c))))"
proof (induction tasks arbitrary: m c out)
  case Nil
  then show ?case by simp
next
  case (Cons a tasks)
  obtain tid pid where a: "a = (tid, pid)" by (cases a)
  define s where "s = (case m pid of None \<Rightarrow> (1::int) | Some n \<Rightarrow> n + 1)"
  have step: "issued m (a # tasks) = (s, tid) # issued (m(pid \<mapsto> s)) tasks"
    by (simp add: a issued_Cons s_def)
  from Cons.prems obtain c1 where
    ex: "execute F (UpdateSeq s tid) c = Inr c1" and
    rest: "assign_loop F (m(pid \<mapsto> s)) tasks c1 (out @ [Progress tid pid s]) = Inr (c', out')"
    by (auto simp: a s_def Let_def split: sum.splits)
  note f0 = execute_Inr_no_fault [OF ex]
  from execute_update_Inr [OF ex] have
    c1: "c1 = c\<lparr>pending := update_seq s tid (pending c), calls := calls c @ [UpdateSeq s tid]\<rparr>"
    and u0: "index c \<longrightarrow> unique_ok (update_seq s tid (pending c))"
    by simp_all
  from Cons.IH [OF rest] have
    fs: "\<forall>j < length tasks. F (length (calls c1) + j) = None" and
    us: "index c1 \<longrightarrow> (\<forall>k. 0 < k \<and> k \<le> length tasks
            \<longrightarrow> unique_ok (apply_updates (take k (issued (m(pid \<mapsto> s)) tasks)) (pending c1)))"
    by blast+
  have "F (length (calls c) + j) = None" if "j < length (a # tasks)" for j
  proof (cases j)
    case 0
    with f0 show ?thesis by simp
  next
    case (Suc i)
    with that fs show ?thesis by (simp add: c1)
  qed
  moreover have "unique_ok (apply_updates (take k (issued m (a # tasks))) (pending c))"
    if ix: "index c" and k: "0 < k \<and> k \<le> length (a # tasks)" for k
  proof (cases k)
    case 0
    with k show ?thesis by simp
  next
    case (Suc i)
    show ?thesis
    proof (cases i)
      case 0
      with u0 ix show ?thesis unfolding Suc step by (simp add: apply_updates_def)
    next
      case (Suc i')
      from ix have "index c1" by (simp add: c1)
      with us k \<open>k = Suc i\<close> Suc
      have "unique_ok (apply_updates (take i (issued (m(pid \<mapsto> s)) tasks)) (pending c1))"
        by simp
      then show ?thesis unfolding \<open>k = Suc i\<close> step by (simp add: apply_updates_Cons c1)
    qed
  qed
  ultimately show ?case by blast
qed

lemma reaching_commit_clean:
  assumes "execute F SelectTasks (connect db ix) = Inr c1"
    and "assign_loop F Map.empty (select_tasks (index c1) (pending c1)) c1 [] = Inr (c2, out2)"
  shows "\<forall>k \<le> length (select_tasks ix db). F k = None"
    and "ix \<longrightarrow> (\<forall>k. 0 < k \<and> k \<le> length (select_tasks ix db)
            \<longrightarrow> unique_ok (apply_updates (take k (issued Map.empty (select_tasks ix db))) db))"
proof -
  note c1 = execute_select_connect [OF assms(1)]
  from execute_Inr_no_fault [OF assms(1)] have f0: "F 0 = None" by simp
  from assign_loop_Inr_clean [OF assms(2)] have
    fs: "\<forall>j < length (select_tasks ix db). F (Suc j) = None" and
    us: "ix \<longrightarrow> (\<forall>k. 0 < k \<and> k \<le> length (select_tasks ix db)
            \<longrightarrow> unique_ok (apply_updates (take k (issued Map.empty (select_tasks ix db))) db))"
    by (simp_all add: c1)
  show "\<forall>k \<le> length (select_tasks ix db). F k = None"
  proof (intro allI impI)
    fix k assume "k \<le> length (select_tasks ix db)"
    with f0 fs show "F k = None" by (cases k) simp_all
  qed
  show "ix \<longrightarrow> (\<forall>k. 0 < k \<and> k \<le> length (select_tasks ix db)
            \<longrightarrow> unique_ok (apply_updates (take k (issued Map.empty (select_tasks ix db))) db))"
    by (rule us)
qed

lemma update_is_not_Commit: "(\<exists>s tid. x = UpdateSeq s tid) \<Longrightarrow> x \<noteq> Commit"
  by auto

lemma create_index_step_exact:
  assumes "create_index_step F c out = (c', out')"
  shows "(\<forall>e. F (length (calls c)) = Some e \<longrightarrow>
            out' = out @ [IndexWarning e] \<and> index c' = index c
            \<and> calls c' = calls c @ [CreateUniqueIndex])
    \<and> (F (length (calls c)) = None \<and> \<not> index c \<and> \<not> unique_ok (pending c) \<longrightarrow>
            out' = out @ [IndexWarning IntegrityError] \<and> \<not> index c'
            \<and> calls c' = calls c @ [CreateUniqueIndex])
    \<and> (F (length (calls c)) = None \<and> (index c \<or> unique_ok (pending c)) \<longrightarrow>
            index c' \<and> calls c' = calls c @ [CreateUniqueIndex, Commit]
            \<and> (\<forall>e. F (Suc (length (calls c))) = Some e \<longrightarrow> out' = out @ [IndexWarning e])
            \<and> (F (Suc (length (calls c))) = None \<longrightarrow> out' = out @ [IndexCreated]))"
  using assms
  by (auto simp: create_index_step_def execute_def Let_def
        split: option.splits sum.splits if_splits)

lemma progress_only:
  "IndexWarning e \<notin> set (map (\<lambda>((tid, pid), s). Progress tid pid s) zs)"
  "IndexCreated \<notin> set (map (\<lambda>((tid, pid), s). Progress tid pid s) zs)"
  by auto








section \<open>The claims\<close>

text \<open>
  Claim C9. Whatever the environment does and however the run ends, the table left in
  the file has the rows of the table the run started from, in the same number and
  order, with the same \<open>id\<close>, \<open>project_id\<close>, \<open>created_at\<close> and \<open>deleted_at\<close>:
  only \<open>project_sequence\<close> can differ, and no row is inserted or removed.
\<close>

theorem other_columns_unchanged:
  "map task_id (stored_after F db ix) = map task_id db
   \<and> map project_id (stored_after F db ix) = map project_id db
   \<and> map created_at (stored_after F db ix) = map created_at db
   \<and> map deleted_at (stored_after F db ix) = map deleted_at db
   \<and> length (stored_after F db ix) = length db"
  using stored_after_cases [of F db ix] map_eq_imp_length_eq [of task_id "stored_after F db ix" task_id db]
  by (auto simp: apply_updates_columns)

text \<open>
  Claim C6. In a table whose ids are distinct, no update is ever issued with the id of
  a soft-deleted row, and the row is stored unchanged, however the run ends.
\<close>

theorem soft_deleted_never_assigned:
  assumes "distinct (map task_id db)" and "i < length db" and "deleted_at (db ! i) \<noteq> None"
  shows "(\<forall>s. UpdateSeq s (task_id (db ! i))
            \<notin> set (calls (outcome_conn (backfill F (connect db ix)))))
    \<and> stored_after F db ix ! i = db ! i"
proof -
  from assms(2) have mem: "db ! i \<in> set db" by simp
  note notsel = deleted_not_selected [OF assms(1) mem assms(3)]
  have nots: "task_id (db ! i) \<notin> snd ` set (issued Map.empty (select_tasks ix db))"
  proof -
    have "snd ` set (issued Map.empty (select_tasks ix db))
            = set (map snd (issued Map.empty (select_tasks ix db)))" by simp
    also have "\<dots> = fst ` set (select_tasks ix db)" unfolding issued_ids by simp
    finally show ?thesis using notsel by simp
  qed
  have calls: "\<forall>s. UpdateSeq s (task_id (db ! i))
            \<notin> set (calls (outcome_conn (backfill F (connect db ix))))"
  proof (intro allI notI)
    fix s
    assume "UpdateSeq s (task_id (db ! i))
              \<in> set (calls (outcome_conn (backfill F (connect db ix))))"
    from outcome_updates [OF this] nots show False by force
  qed
  have "apply_updates (issued Map.empty (select_tasks ix db)) db ! i = db ! i"
    unfolding apply_updates_closed using assms(2) assigned_None [OF nots]
    by (simp add: set_sequence_untouched)
  with stored_after_cases [of F db ix] have "stored_after F db ix ! i = db ! i" by auto
  with calls show ?thesis by simp
qed

text \<open>A table of one live and one soft-deleted row.\<close>

theorem soft_deleted_never_assigned_witness:
  "distinct (map task_id
      [\<lparr>task_id = 1, project_id = 7, created_at = 10, deleted_at = None, project_sequence = None\<rparr>,
       \<lparr>task_id = 2, project_id = 7, created_at = 20, deleted_at = Some 30, project_sequence = None\<rparr>])
   \<and> (1::nat) < length
      [\<lparr>task_id = 1, project_id = 7, created_at = 10, deleted_at = None, project_sequence = None\<rparr>,
       \<lparr>task_id = 2, project_id = 7, created_at = 20, deleted_at = Some 30, project_sequence = None\<rparr>]
   \<and> (\<forall>s. UpdateSeq s 2 \<notin> set (calls (outcome_conn (backfill no_faults (connect
      [\<lparr>task_id = 1, project_id = 7, created_at = 10, deleted_at = None, project_sequence = None\<rparr>,
       \<lparr>task_id = 2, project_id = 7, created_at = 20, deleted_at = Some 30, project_sequence = None\<rparr>]
      False)))))
   \<and> stored_after no_faults
      [\<lparr>task_id = 1, project_id = 7, created_at = 10, deleted_at = None, project_sequence = None\<rparr>,
       \<lparr>task_id = 2, project_id = 7, created_at = 20, deleted_at = Some 30, project_sequence = None\<rparr>]
      False ! 1
     = \<lparr>task_id = 2, project_id = 7, created_at = 20, deleted_at = Some 30, project_sequence = None\<rparr>"
  using soft_deleted_never_assigned [of
      "[\<lparr>task_id = 1, project_id = 7, created_at = 10, deleted_at = None, project_sequence = None\<rparr>,
        \<lparr>task_id = 2, project_id = 7, created_at = 20, deleted_at = Some 30, project_sequence = None\<rparr>]"
      1 no_faults False]
  by simp

text \<open>
  Claim C3. In a run that reaches its end, the updates issued are one per row of the
  query result, in scan order, each keyed by the id of its row. The sequence of an
  update is 1 when no earlier row of the scan has the same project, and otherwise one
  more than the sequence given to the nearest earlier row of that project. With
  distinct ids, every live row of the table is the target of exactly one update.
\<close>

theorem single_pass_numbering:
  assumes "backfill F (connect db ix) = Finished c out"
  shows "map snd (updates_of (calls c)) = map fst (select_tasks ix db)
    \<and> (\<forall>i < length (select_tasks ix db).
          (\<forall>j < i. snd (select_tasks ix db ! j) \<noteq> snd (select_tasks ix db ! i))
            \<longrightarrow> fst (updates_of (calls c) ! i) = 1)
    \<and> (\<forall>i j. j < i \<and> i < length (select_tasks ix db)
          \<and> snd (select_tasks ix db ! j) = snd (select_tasks ix db ! i)
          \<and> (\<forall>k. j < k \<and> k < i \<longrightarrow> snd (select_tasks ix db ! k) \<noteq> snd (select_tasks ix db ! i))
            \<longrightarrow> fst (updates_of (calls c) ! i) = fst (updates_of (calls c) ! j) + 1)
    \<and> (distinct (map task_id db) \<longrightarrow>
          (\<forall>t \<in> set db. deleted_at t = None
             \<longrightarrow> length (filter (\<lambda>u. snd u = task_id t) (updates_of (calls c))) = 1))"
proof -
  let ?tasks = "select_tasks ix db"
  let ?ps = "map snd ?tasks"
  note ups = finished_run(3) [OF assms]
  have ids: "map snd (updates_of (calls c)) = map fst ?tasks"
    unfolding ups by (rule issued_ids)
  have seq: "fst (updates_of (calls c) ! i) = sequences Map.empty ?ps ! i"
    if "i < length ?tasks" for i
    unfolding ups using that by (simp add: issued_nth)
  have first: "fst (updates_of (calls c) ! i) = 1"
    if "i < length ?tasks" "\<forall>j < i. snd (?tasks ! j) \<noteq> snd (?tasks ! i)" for i
  proof -
    from that have "\<forall>j < i. ?ps ! j \<noteq> ?ps ! i" by simp
    with that(1) show ?thesis
      unfolding seq [OF that(1)] by (intro sequences_first) simp_all
  qed
  have nxt: "fst (updates_of (calls c) ! i) = fst (updates_of (calls c) ! j) + 1"
    if "j < i" "i < length ?tasks" "snd (?tasks ! j) = snd (?tasks ! i)"
      "\<forall>k. j < k \<and> k < i \<longrightarrow> snd (?tasks ! k) \<noteq> snd (?tasks ! i)" for i j
  proof -
    from that have j: "j < length ?tasks" by simp
    have "sequences Map.empty ?ps ! i = sequences Map.empty ?ps ! j + 1"
      using that by (intro sequences_next) simp_all
    then show ?thesis unfolding seq [OF that(2)] seq [OF j] .
  qed
  have once: "length (filter (\<lambda>u. snd u = task_id t) (updates_of (calls c))) = 1"
    if "distinct (map task_id db)" "t \<in> set db" "deleted_at t = None" for t
  proof -
    from select_tasks_distinct [OF that(1)]
    have "distinct (map snd (updates_of (calls c)))" unfolding ids .
    moreover have "task_id t \<in> snd ` set (updates_of (calls c))"
    proof -
      have "snd ` set (updates_of (calls c)) = set (map snd (updates_of (calls c)))" by simp
      also have "\<dots> = fst ` set ?tasks" unfolding ids by simp
      finally show ?thesis unfolding select_tasks_id_set using that(2,3) by blast
    qed
    ultimately show ?thesis by (rule once_in_distinct)
  qed
  from ids first nxt once show ?thesis by blast
qed

text \<open>Two rows of project 7 and one of project 9, the latter created first.\<close>

theorem single_pass_numbering_witness:
  "backfill no_faults
     (connect
        [\<lparr>task_id = 1, project_id = 7, created_at = 10, deleted_at = None, project_sequence = None\<rparr>,
         \<lparr>task_id = 2, project_id = 9, created_at = 5, deleted_at = None, project_sequence = None\<rparr>,
         \<lparr>task_id = 3, project_id = 7, created_at = 20, deleted_at = None, project_sequence = None\<rparr>]
        False)
   = Finished
       \<lparr>committed =
          [\<lparr>task_id = 1, project_id = 7, created_at = 10, deleted_at = None, project_sequence = Some 1\<rparr>,
           \<lparr>task_id = 2, project_id = 9, created_at = 5, deleted_at = None, project_sequence = Some 1\<rparr>,
           \<lparr>task_id = 3, project_id = 7, created_at = 20, deleted_at = None, project_sequence = Some 2\<rparr>],
        pending =
          [\<lparr>task_id = 1, project_id = 7, created_at = 10, deleted_at = None, project_sequence = Some 1\<rparr>,
           \<lparr>task_id = 2, project_id = 9, created_at = 5, deleted_at = None, project_sequence = Some 1\<rparr>,
           \<lparr>task_id = 3, project_id = 7, created_at = 20, deleted_at = None, project_sequence = Some 2\<rparr>],
        index = True,
        calls = [SelectTasks, UpdateSeq 1 1, UpdateSeq 2 3, UpdateSeq 1 2, Commit, CreateUniqueIndex, Commit, CountSequenced]\<rparr>
       [Progress 1 7 1, Progress 3 7 2, Progress 2 9 1, IndexCreated, Summary 3]
   \<and> map snd (updates_of
        [SelectTasks, UpdateSeq 1 1, UpdateSeq 2 3, UpdateSeq 1 2, Commit, CreateUniqueIndex,
         Commit, CountSequenced])
     = map fst (select_tasks False
        [\<lparr>task_id = 1, project_id = 7, created_at = 10, deleted_at = None, project_sequence = None\<rparr>,
         \<lparr>task_id = 2, project_id = 9, created_at = 5, deleted_at = None, project_sequence = None\<rparr>,
         \<lparr>task_id = 3, project_id = 7, created_at = 20, deleted_at = None, project_sequence = None\<rparr>])"
proof -
  have run: "backfill no_faults
     (connect
        [\<lparr>task_id = 1, project_id = 7, created_at = 10, deleted_at = None, project_sequence = None\<rparr>,
         \<lparr>task_id = 2, project_id = 9, created_at = 5, deleted_at = None, project_sequence = None\<rparr>,
         \<lparr>task_id = 3, project_id = 7, created_at = 20, deleted_at = None, project_sequence = None\<rparr>]
        False)
   = Finished
       \<lparr>committed =
          [\<lparr>task_id = 1, project_id = 7, created_at = 10, deleted_at = None, project_sequence = Some 1\<rparr>,
           \<lparr>task_id = 2, project_id = 9, created_at = 5, deleted_at = None, project_sequence = Some 1\<rparr>,
           \<lparr>task_id = 3, project_id = 7, created_at = 20, deleted_at = None, project_sequence = Some 2\<rparr>],
        pending =
          [\<lparr>task_id = 1, project_id = 7, created_at = 10, deleted_at = None, project_sequence = Some 1\<rparr>,
           \<lparr>task_id = 2, project_id = 9, created_at = 5, deleted_at = None, project_sequence = Some 1\<rparr>,
           \<lparr>task_id = 3, project_id = 7, created_at = 20, deleted_at = None, project_sequence = Some 2\<rparr>],
        index = True,
        calls = [SelectTasks, UpdateSeq 1 1, UpdateSeq 2 3, UpdateSeq 1 2, Commit, CreateUniqueIndex, Commit, CountSequenced]\<rparr>
       [Progress 1 7 1, Progress 3 7 2, Progress 2 9 1, IndexCreated, Summary 3]"
    by (simp add: backfill_def connect_def select_tasks_def order_by_def execute_def update_seq_def
          no_faults_def create_index_step_def unique_ok_def count_sequenced_def)
  from single_pass_numbering [OF run] run show ?thesis by simp
qed

text \<open>
  Claim C2. In a run that reaches its end on a table with distinct ids, of two live
  rows of one project the one created strictly earlier is stored with the strictly
  smaller sequence.
\<close>

theorem sequence_follows_creation_time:
  assumes "backfill F (connect db ix) = Finished c out"
    and "distinct (map task_id db)"
    and "i < length db" and "j < length db"
    and "deleted_at (db ! i) = None" and "deleted_at (db ! j) = None"
    and "project_id (db ! i) = project_id (db ! j)"
    and "created_at (db ! i) < created_at (db ! j)"
  shows "\<exists>a b. project_sequence (committed c ! i) = Some a
           \<and> project_sequence (committed c ! j) = Some b \<and> a < b"
proof -
  let ?key = "\<lambda>t. (project_id t, created_at t)"
  let ?seqs = "sequences Map.empty (map project_id (scan ix db))"
  from live_in_scan [OF assms(3,5)] obtain x where
    x: "x < length (scan ix db)" "scan ix db ! x = db ! i" by blast
  from live_in_scan [OF assms(4,6)] obtain y where
    y: "y < length (scan ix db)" "scan ix db ! y = db ! j" by blast
  have "x < y"
  proof (rule ccontr)
    assume "\<not> x < y"
    then have "y \<le> x" by simp
    with sorted_scan [of ix db] x(1) have "map ?key (scan ix db) ! y \<le> map ?key (scan ix db) ! x"
      by (intro sorted_nth_mono) simp_all
    with x y have "?key (db ! j) \<le> ?key (db ! i)" by simp
    with assms(7,8) show False by simp
  qed
  moreover have "map project_id (scan ix db) ! x = map project_id (scan ix db) ! y"
    using x y assms(7) by simp
  ultimately have less: "?seqs ! x < ?seqs ! y"
    using y(1) by (intro sequences_increase) simp_all
  have "project_sequence (committed c ! i) = Some (?seqs ! x)"
    unfolding finished_row [OF assms(1,3)] x(2) [symmetric]
    by (simp add: set_sequence_scan [OF assms(2) x(1)])
  moreover have "project_sequence (committed c ! j) = Some (?seqs ! y)"
    unfolding finished_row [OF assms(1,4)] y(2) [symmetric]
    by (simp add: set_sequence_scan [OF assms(2) y(1)])
  ultimately show ?thesis using less by blast
qed

text \<open>The row stored first was created last: it gets sequence 2.\<close>

theorem sequence_follows_creation_time_witness:
  "backfill no_faults
     (connect
        [\<lparr>task_id = 1, project_id = 7, created_at = 20, deleted_at = None, project_sequence = None\<rparr>,
         \<lparr>task_id = 2, project_id = 7, created_at = 10, deleted_at = None, project_sequence = None\<rparr>]
        False)
   = Finished
       \<lparr>committed =
          [\<lparr>task_id = 1, project_id = 7, created_at = 20, deleted_at = None, project_sequence = Some 2\<rparr>,
           \<lparr>task_id = 2, project_id = 7, created_at = 10, deleted_at = None, project_sequence = Some 1\<rparr>],
        pending =
          [\<lparr>task_id = 1, project_id = 7, created_at = 20, deleted_at = None, project_sequence = Some 2\<rparr>,
           \<lparr>task_id = 2, project_id = 7, created_at = 10, deleted_at = None, project_sequence = Some 1\<rparr>],
        index = True,
        calls = [SelectTasks, UpdateSeq 1 2, UpdateSeq 2 1, Commit, CreateUniqueIndex, Commit, CountSequenced]\<rparr>
       [Progress 2 7 1, Progress 1 7 2, IndexCreated, Summary 2]
   \<and> (\<exists>a b. project_sequence
          ([\<lparr>task_id = 1, project_id = 7, created_at = 20, deleted_at = None, project_sequence = Some 2\<rparr>,
           \<lparr>task_id = 2, project_id = 7, created_at = 10, deleted_at = None, project_sequence = Some 1\<rparr>] ! 1) = Some a
        \<and> project_sequence
          ([\<lparr>task_id = 1, project_id = 7, created_at = 20, deleted_at = None, project_sequence = Some 2\<rparr>,
           \<lparr>task_id = 2, project_id = 7, created_at = 10, deleted_at = None, project_sequence = Some 1\<rparr>] ! 0) = Some b
        \<and> a < b)"
proof -
  have run: "backfill no_faults
     (connect
        [\<lparr>task_id = 1, project_id = 7, created_at = 20, deleted_at = None, project_sequence = None\<rparr>,
         \<lparr>task_id = 2, project_id = 7, created_at = 10, deleted_at = None, project_sequence = None\<rparr>]
        False)
   = Finished
       \<lparr>committed =
          [\<lparr>task_id = 1, project_id = 7, created_at = 20, deleted_at = None, project_sequence = Some 2\<rparr>,
           \<lparr>task_id = 2, project_id = 7, created_at = 10, deleted_at = None, project_sequence = Some 1\<rparr>],
        pending =
          [\<lparr>task_id = 1, project_id = 7, created_at = 20, deleted_at = None, project_sequence = Some 2\<rparr>,
           \<lparr>task_id = 2, project_id = 7, created_at = 10, deleted_at = None, project_sequence = Some 1\<rparr>],
        index = True,
        calls = [SelectTasks, UpdateSeq 1 2, UpdateSeq 2 1, Commit, CreateUniqueIndex, Commit, CountSequenced]\<rparr>
       [Progress 2 7 1, Progress 1 7 2, IndexCreated, Summary 2]"
    by (simp add: backfill_def connect_def select_tasks_def order_by_def execute_def update_seq_def
          no_faults_def create_index_step_def unique_ok_def count_sequenced_def)
  from sequence_follows_creation_time [OF run, of 1 0] run show ?thesis by simp
qed

text \<open>
  Claim C1. On a table with distinct ids whose sequences are all unset, and with no
  error from the environment, the run reaches its end, and in the table it stores the
  sequences of the live rows of each project are the numbers 1 to N, each once, N being
  the number of live rows of the project.
\<close>

theorem dense_sequences_per_project:
  assumes "distinct (map task_id db)" and "\<forall>t \<in> set db. project_sequence t = None"
  shows "\<exists>c out. backfill no_faults (connect db ix) = Finished c out
    \<and> (\<forall>p. mset (map project_sequence
                   (filter (\<lambda>t. project_id t = p \<and> deleted_at t = None) (committed c)))
           = mset (map Some
                   [1 .. int (length (filter (\<lambda>t. project_id t = p \<and> deleted_at t = None) db))]))"
proof -
  from prefix_unique [OF assms]
  have "ix \<longrightarrow> (\<forall>k. 0 < k \<and> k \<le> length (select_tasks ix db)
             \<longrightarrow> unique_ok (apply_updates (take k (issued Map.empty (select_tasks ix db))) db))"
    by blast
  from no_faults_finishes [OF this] obtain c out where
    run: "backfill no_faults (connect db ix) = Finished c out" by blast
  from dense_per_project [OF run assms(1)] run show ?thesis by blast
qed

text \<open>Two live rows and a soft-deleted row in project 7, one live row in project 9.\<close>

theorem dense_sequences_per_project_witness:
  "distinct (map task_id
      [\<lparr>task_id = 1, project_id = 7, created_at = 20, deleted_at = None, project_sequence = None\<rparr>,
       \<lparr>task_id = 2, project_id = 9, created_at = 5, deleted_at = None, project_sequence = None\<rparr>,
       \<lparr>task_id = 3, project_id = 7, created_at = 10, deleted_at = None, project_sequence = None\<rparr>,
       \<lparr>task_id = 4, project_id = 7, created_at = 1, deleted_at = Some 30, project_sequence = None\<rparr>])
   \<and> map project_sequence
      [\<lparr>task_id = 1, project_id = 7, created_at = 20, deleted_at = None, project_sequence = None\<rparr>,
       \<lparr>task_id = 2, project_id = 9, created_at = 5, deleted_at = None, project_sequence = None\<rparr>,
       \<lparr>task_id = 3, project_id = 7, created_at = 10, deleted_at = None, project_sequence = None\<rparr>,
       \<lparr>task_id = 4, project_id = 7, created_at = 1, deleted_at = Some 30, project_sequence = None\<rparr>]
     = [None, None, None, None]
   \<and> (\<exists>c out. backfill no_faults (connect
      [\<lparr>task_id = 1, project_id = 7, created_at = 20, deleted_at = None, project_sequence = None\<rparr>,
       \<lparr>task_id = 2, project_id = 9, created_at = 5, deleted_at = None, project_sequence = None\<rparr>,
       \<lparr>task_id = 3, project_id = 7, created_at = 10, deleted_at = None, project_sequence = None\<rparr>,
       \<lparr>task_id = 4, project_id = 7, created_at = 1, deleted_at = Some 30, project_sequence = None\<rparr>]
      False) = Finished c out
    \<and> (\<forall>p. mset (map project_sequence
                   (filter (\<lambda>t. project_id t = p \<and> deleted_at t = None) (committed c)))
           = mset (map Some
                   [1 .. int (length (filter (\<lambda>t. project_id t = p \<and> deleted_at t = None)
      [\<lparr>task_id = 1, project_id = 7, created_at = 20, deleted_at = None, project_sequence = None\<rparr>,
       \<lparr>task_id = 2, project_id = 9, created_at = 5, deleted_at = None, project_sequence = None\<rparr>,
       \<lparr>task_id = 3, project_id = 7, created_at = 10, deleted_at = None, project_sequence = None\<rparr>,
       \<lparr>task_id = 4, project_id = 7, created_at = 1, deleted_at = Some 30, project_sequence = None\<rparr>]))])))"
proof -
  have ids: "distinct (map task_id
      [\<lparr>task_id = 1, project_id = 7, created_at = 20, deleted_at = None, project_sequence = None\<rparr>,
       \<lparr>task_id = 2, project_id = 9, created_at = 5, deleted_at = None, project_sequence = None\<rparr>,
       \<lparr>task_id = 3, project_id = 7, created_at = 10, deleted_at = None, project_sequence = None\<rparr>,
       \<lparr>task_id = 4, project_id = 7, created_at = 1, deleted_at = Some 30, project_sequence = None\<rparr>])"
    by simp
  have unset: "\<forall>t \<in> set
      [\<lparr>task_id = 1, project_id = 7, created_at = 20, deleted_at = None, project_sequence = None\<rparr>,
       \<lparr>task_id = 2, project_id = 9, created_at = 5, deleted_at = None, project_sequence = None\<rparr>,
       \<lparr>task_id = 3, project_id = 7, created_at = 10, deleted_at = None, project_sequence = None\<rparr>,
       \<lparr>task_id = 4, project_id = 7, created_at = 1, deleted_at = Some 30, project_sequence = None\<rparr>].
        project_sequence t = None"
    by simp
  from dense_sequences_per_project [OF ids unset, of False] ids show ?thesis
    by simp
qed

text \<open>
  Claim C10. The count of the summary line is the number of stored rows with a
  non-null sequence, with no regard to \<open>deleted_at\<close>. In a run that reaches its end on
  a table with distinct ids, a soft-deleted row is stored as it was, and the count is
  the number of live rows plus the number of soft-deleted rows that had a sequence
  before the run. So the count is the number of live rows when every sequence was
  unset before the run, and exceeds it when some soft-deleted row had one.
\<close>

theorem count_includes_soft_deleted:
  assumes "backfill F (connect db ix) = Finished c out" and "distinct (map task_id db)"
  shows "last out = Summary (count_sequenced (committed c))
    \<and> count_sequenced (committed c)
        = length (filter (\<lambda>t. deleted_at t = None) db)
          + length (filter (\<lambda>t. deleted_at t \<noteq> None \<and> project_sequence t \<noteq> None) db)
    \<and> (\<forall>i < length db. deleted_at (db ! i) \<noteq> None \<longrightarrow> committed c ! i = db ! i)
    \<and> ((\<forall>t \<in> set db. project_sequence t = None)
          \<longrightarrow> count_sequenced (committed c) = length (filter (\<lambda>t. deleted_at t = None) db))
    \<and> ((\<exists>t \<in> set db. deleted_at t \<noteq> None \<and> project_sequence t \<noteq> None)
          \<longrightarrow> length (filter (\<lambda>t. deleted_at t = None) db) < count_sequenced (committed c))"
proof -
  from finished_run(4) [OF assms(1)]
  have last: "last out = Summary (count_sequenced (committed c))" by auto
  note cnt = finished_count [OF assms]
  have kept: "\<forall>i < length db. deleted_at (db ! i) \<noteq> None \<longrightarrow> committed c ! i = db ! i"
  proof (intro allI impI)
    fix i assume i: "i < length db" and del: "deleted_at (db ! i) \<noteq> None"
    from i have "db ! i \<in> set db" by simp
    from deleted_row_kept [OF assms(2) this del] show "committed c ! i = db ! i"
      unfolding finished_row [OF assms(1) i] .
  qed
  have unset: "count_sequenced (committed c) = length (filter (\<lambda>t. deleted_at t = None) db)"
    if "\<forall>t \<in> set db. project_sequence t = None"
  proof -
    from that have "filter (\<lambda>t. deleted_at t \<noteq> None \<and> project_sequence t \<noteq> None) db = []"
      by (simp add: filter_empty_conv)
    then show ?thesis unfolding cnt by simp
  qed
  have more: "length (filter (\<lambda>t. deleted_at t = None) db) < count_sequenced (committed c)"
    if "\<exists>t \<in> set db. deleted_at t \<noteq> None \<and> project_sequence t \<noteq> None"
  proof -
    from that have "filter (\<lambda>t. deleted_at t \<noteq> None \<and> project_sequence t \<noteq> None) db \<noteq> []"
      by (simp add: filter_empty_conv)
    then show ?thesis unfolding cnt by simp
  qed
  from last cnt kept unset more show ?thesis by blast
qed

text \<open>
  One live row, and one soft-deleted row that holds sequence 5: the summary counts 2.
\<close>

theorem count_includes_soft_deleted_witness:
  "backfill no_faults
     (connect
        [\<lparr>task_id = 1, project_id = 7, created_at = 10, deleted_at = None, project_sequence = None\<rparr>,
         \<lparr>task_id = 2, project_id = 7, created_at = 20, deleted_at = Some 30, project_sequence = Some 5\<rparr>]
        False)
   = Finished
       \<lparr>committed =
          [\<lparr>task_id = 1, project_id = 7, created_at = 10, deleted_at = None, project_sequence = Some 1\<rparr>,
           \<lparr>task_id = 2, project_id = 7, created_at = 20, deleted_at = Some 30, project_sequence = Some 5\<rparr>],
        pending =
          [\<lparr>task_id = 1, project_id = 7, created_at = 10, deleted_at = None, project_sequence = Some 1\<rparr>,
           \<lparr>task_id = 2, project_id = 7, created_at = 20, deleted_at = Some 30, project_sequence = Some 5\<rparr>],
        index = True,
        calls = [SelectTasks, UpdateSeq 1 1, Commit, CreateUniqueIndex, Commit, CountSequenced]\<rparr>
       [Progress 1 7 1, IndexCreated, Summary 2]
   \<and> distinct (map task_id
        [\<lparr>task_id = 1, project_id = 7, created_at = 10, deleted_at = None, project_sequence = None\<rparr>,
         \<lparr>task_id = 2, project_id = 7, created_at = 20, deleted_at = Some 30, project_sequence = Some 5\<rparr>])
   \<and> count_sequenced
        [\<lparr>task_id = 1, project_id = 7, created_at = 10, deleted_at = None, project_sequence = Some 1\<rparr>,
         \<lparr>task_id = 2, project_id = 7, created_at = 20, deleted_at = Some 30, project_sequence = Some 5\<rparr>] = 2
   \<and> length (filter (\<lambda>t. deleted_at t = None)
        [\<lparr>task_id = 1, project_id = 7, created_at = 10, deleted_at = None, project_sequence = None\<rparr>,
         \<lparr>task_id = 2, project_id = 7, created_at = 20, deleted_at = Some 30, project_sequence = Some 5\<rparr>]) = 1"
proof -
  have run: "backfill no_faults
     (connect
        [\<lparr>task_id = 1, project_id = 7, created_at = 10, deleted_at = None, project_sequence = None\<rparr>,
         \<lparr>task_id = 2, project_id = 7, created_at = 20, deleted_at = Some 30, project_sequence = Some 5\<rparr>]
        False)
   = Finished
       \<lparr>committed =
          [\<lparr>task_id = 1, project_id = 7, created_at = 10, deleted_at = None, project_sequence = Some 1\<rparr>,
           \<lparr>task_id = 2, project_id = 7, created_at = 20, deleted_at = Some 30, project_sequence = Some 5\<rparr>],
        pending =
          [\<lparr>task_id = 1, project_id = 7, created_at = 10, deleted_at = None, project_sequence = Some 1\<rparr>,
           \<lparr>task_id = 2, project_id = 7, created_at = 20, deleted_at = Some 30, project_sequence = Some 5\<rparr>],
        index = True,
        calls = [SelectTasks, UpdateSeq 1 1, Commit, CreateUniqueIndex, Commit, CountSequenced]\<rparr>
       [Progress 1 7 1, IndexCreated, Summary 2]"
    by (simp add: backfill_def connect_def select_tasks_def order_by_def execute_def update_seq_def
          no_faults_def create_index_step_def unique_ok_def count_sequenced_def)
  have ids: "distinct (map task_id
        [\<lparr>task_id = 1, project_id = 7, created_at = 10, deleted_at = None, project_sequence = None\<rparr>,
         \<lparr>task_id = 2, project_id = 7, created_at = 20, deleted_at = Some 30, project_sequence = Some 5\<rparr>])"
    by simp
  from count_includes_soft_deleted [OF run ids] run ids show ?thesis by simp
qed

text \<open>
  Claim C8. The example of the specification, for any ids, any times with
  \<open>t1 < t2 < t3\<close>, and any order of the five rows in the table: the run reaches its
  end, the three live rows of project 7 are stored with 1, 2, 3 in the order of their
  creation, the row of project 9 with 1, and the soft-deleted row is stored as it
  was, no update having been issued with its id.
\<close>

theorem spec_example:
  assumes "distinct [i1, i2, i3, i4, i5]" and "t1 < t2" and "t2 < t3"
    and "mset db = mset
      [\<lparr>task_id = i1, project_id = 7, created_at = t1, deleted_at = None, project_sequence = None\<rparr>,
       \<lparr>task_id = i2, project_id = 7, created_at = t2, deleted_at = None, project_sequence = None\<rparr>,
       \<lparr>task_id = i3, project_id = 7, created_at = t3, deleted_at = None, project_sequence = None\<rparr>,
       \<lparr>task_id = i4, project_id = 9, created_at = t4, deleted_at = None, project_sequence = None\<rparr>,
       \<lparr>task_id = i5, project_id = 7, created_at = t5, deleted_at = Some d, project_sequence = None\<rparr>]"
  shows "\<exists>c out. backfill no_faults (connect db ix) = Finished c out
    \<and> mset (committed c) = mset
      [\<lparr>task_id = i1, project_id = 7, created_at = t1, deleted_at = None, project_sequence = Some 1\<rparr>,
       \<lparr>task_id = i2, project_id = 7, created_at = t2, deleted_at = None, project_sequence = Some 2\<rparr>,
       \<lparr>task_id = i3, project_id = 7, created_at = t3, deleted_at = None, project_sequence = Some 3\<rparr>,
       \<lparr>task_id = i4, project_id = 9, created_at = t4, deleted_at = None, project_sequence = Some 1\<rparr>,
       \<lparr>task_id = i5, project_id = 7, created_at = t5, deleted_at = Some d, project_sequence = None\<rparr>]
    \<and> (\<forall>s. UpdateSeq s i5 \<notin> set (calls c))"
proof -
  define r1 where "r1 = \<lparr>task_id = i1, project_id = 7, created_at = t1, deleted_at = None, project_sequence = None\<rparr>"
  define r2 where "r2 = \<lparr>task_id = i2, project_id = 7, created_at = t2, deleted_at = None, project_sequence = None\<rparr>"
  define r3 where "r3 = \<lparr>task_id = i3, project_id = 7, created_at = t3, deleted_at = None, project_sequence = None\<rparr>"
  define r4 where "r4 = \<lparr>task_id = i4, project_id = 9, created_at = t4, deleted_at = None, project_sequence = None\<rparr>"
  define r5 where "r5 = \<lparr>task_id = i5, project_id = 7, created_at = t5, deleted_at = Some d, project_sequence = None\<rparr>"
  note defs = r1_def r2_def r3_def r4_def r5_def
  from assms(4) have db: "mset db = mset [r1, r2, r3, r4, r5]" by (simp only: defs)
  have "mset (map task_id db) = mset (map task_id [r1, r2, r3, r4, r5])"
    unfolding mset_map db ..
  moreover have "distinct (map task_id [r1, r2, r3, r4, r5])"
    using assms(1) by (simp add: defs)
  ultimately have ids: "distinct (map task_id db)"
    by (metis mset_eq_imp_distinct_iff)
  from db have "set db = set [r1, r2, r3, r4, r5]" by (rule mset_eq_setD)
  then have unset: "\<forall>t \<in> set db. project_sequence t = None"
    by (simp add: defs)
  from unset_run_finishes [OF ids unset] obtain c out where
    run: "backfill no_faults (connect db ix) = Finished c out" by blast
  have "mset (filter (\<lambda>t. deleted_at t = None) db)
      = mset (filter (\<lambda>t. deleted_at t = None) [r1, r2, r3, r4, r5])"
    unfolding mset_filter db ..
  also have "\<dots> = mset [r1, r2, r3, r4]" by (simp add: defs)
  finally have live: "mset (filter (\<lambda>t. deleted_at t = None) db) = mset [r1, r2, r3, r4]" .
  have scan: "scan ix db = [r1, r2, r3, r4]"
    using live
  proof (rule scan_unique)
    show "sorted (map (\<lambda>t. (project_id t, created_at t)) [r1, r2, r3, r4])"
      using assms(2,3) by (simp add: defs)
    show "distinct (map (\<lambda>t. (project_id t, created_at t)) [r1, r2, r3, r4])"
      using assms(2,3) by (simp add: defs)
  qed
  have us: "issued Map.empty (select_tasks ix db) = [(1, i1), (2, i2), (3, i3), (1, i4)]"
    unfolding issued_scan scan by (simp add: defs)
  let ?G = "set_sequence (assigned [(1, i1), (2, i2), (3, i3), (1, i4)])"
  have "committed c = map ?G db"
    unfolding finished_run(1) [OF run] apply_updates_closed us ..
  then have "mset (committed c) = mset (map ?G [r1, r2, r3, r4, r5])"
    by (simp only: mset_map db)
  also have "map ?G [r1, r2, r3, r4, r5] =
      [r1\<lparr>project_sequence := Some 1\<rparr>, r2\<lparr>project_sequence := Some 2\<rparr>,
       r3\<lparr>project_sequence := Some 3\<rparr>, r4\<lparr>project_sequence := Some 1\<rparr>, r5]"
    using assms(1) by (auto simp: set_sequence_def assigned_def defs)
  finally have stored: "mset (committed c) = mset
      [r1\<lparr>project_sequence := Some 1\<rparr>, r2\<lparr>project_sequence := Some 2\<rparr>,
       r3\<lparr>project_sequence := Some 3\<rparr>, r4\<lparr>project_sequence := Some 1\<rparr>, r5]" .
  have none: "\<forall>s. UpdateSeq s i5 \<notin> set (calls c)"
  proof (intro allI notI)
    fix s assume "UpdateSeq s i5 \<in> set (calls c)"
    then have "UpdateSeq s i5 \<in> set (calls (outcome_conn (backfill no_faults (connect db ix))))"
      by (simp add: run)
    from outcome_updates [OF this] assms(1) show False
      unfolding us by auto
  qed
  from run stored none show ?thesis
    unfolding defs by (intro exI [of _ c] exI [of _ out]) simp
qed

text \<open>The five rows stored in another order than that of their creation.\<close>

theorem spec_example_witness:
  "distinct [11, 12, 13, 14, 15 :: int] \<and> (100::int) < 200 \<and> (200::int) < 300
   \<and> mset
      [\<lparr>task_id = 13, project_id = 7, created_at = 300, deleted_at = None, project_sequence = None\<rparr>,
      \<lparr>task_id = 15, project_id = 7, created_at = 10, deleted_at = Some 400, project_sequence = None\<rparr>,
      \<lparr>task_id = 14, project_id = 9, created_at = 50, deleted_at = None, project_sequence = None\<rparr>,
      \<lparr>task_id = 11, project_id = 7, created_at = 100, deleted_at = None, project_sequence = None\<rparr>,
      \<lparr>task_id = 12, project_id = 7, created_at = 200, deleted_at = None, project_sequence = None\<rparr>]
    = mset
      [\<lparr>task_id = 11, project_id = 7, created_at = 100, deleted_at = None, project_sequence = None\<rparr>,
      \<lparr>task_id = 12, project_id = 7, created_at = 200, deleted_at = None, project_sequence = None\<rparr>,
      \<lparr>task_id = 13, project_id = 7, created_at = 300, deleted_at = None, project_sequence = None\<rparr>,
      \<lparr>task_id = 14, project_id = 9, created_at = 50, deleted_at = None, project_sequence = None\<rparr>,
      \<lparr>task_id = 15, project_id = 7, created_at = 10, deleted_at = Some 400, project_sequence = None\<rparr>]
   \<and> (\<exists>c out. backfill no_faults (connect
      [\<lparr>task_id = 13, project_id = 7, created_at = 300, deleted_at = None, project_sequence = None\<rparr>,
      \<lparr>task_id = 15, project_id = 7, created_at = 10, deleted_at = Some 400, project_sequence = None\<rparr>,
      \<lparr>task_id = 14, project_id = 9, created_at = 50, deleted_at = None, project_sequence = None\<rparr>,
      \<lparr>task_id = 11, project_id = 7, created_at = 100, deleted_at = None, project_sequence = None\<rparr>,
      \<lparr>task_id = 12, project_id = 7, created_at = 200, deleted_at = None, project_sequence = None\<rparr>]
      False) = Finished c out
    \<and> mset (committed c) = mset
      [\<lparr>task_id = 11, project_id = 7, created_at = 100, deleted_at = None, project_sequence = Some 1\<rparr>,
      \<lparr>task_id = 12, project_id = 7, created_at = 200, deleted_at = None, project_sequence = Some 2\<rparr>,
      \<lparr>task_id = 13, project_id = 7, created_at = 300, deleted_at = None, project_sequence = Some 3\<rparr>,
      \<lparr>task_id = 14, project_id = 9, created_at = 50, deleted_at = None, project_sequence = Some 1\<rparr>,
      \<lparr>task_id = 15, project_id = 7, created_at = 10, deleted_at = Some 400, project_sequence = None\<rparr>]
    \<and> (\<forall>s. UpdateSeq s 15 \<notin> set (calls c)))"
proof -
  have h1: "distinct [11, 12, 13, 14, 15 :: int]" by simp
  have h2: "(100::int) < 200" by simp
  have h3: "(200::int) < 300" by simp
  have h4: "mset
      [\<lparr>task_id = 13, project_id = 7, created_at = 300, deleted_at = None, project_sequence = None\<rparr>,
      \<lparr>task_id = 15, project_id = 7, created_at = 10, deleted_at = Some 400, project_sequence = None\<rparr>,
      \<lparr>task_id = 14, project_id = 9, created_at = 50, deleted_at = None, project_sequence = None\<rparr>,
      \<lparr>task_id = 11, project_id = 7, created_at = 100, deleted_at = None, project_sequence = None\<rparr>,
      \<lparr>task_id = 12, project_id = 7, created_at = 200, deleted_at = None, project_sequence = None\<rparr>]
    = mset
      [\<lparr>task_id = 11, project_id = 7, created_at = 100, deleted_at = None, project_sequence = None\<rparr>,
      \<lparr>task_id = 12, project_id = 7, created_at = 200, deleted_at = None, project_sequence = None\<rparr>,
      \<lparr>task_id = 13, project_id = 7, created_at = 300, deleted_at = None, project_sequence = None\<rparr>,
      \<lparr>task_id = 14, project_id = 9, created_at = 50, deleted_at = None, project_sequence = None\<rparr>,
      \<lparr>task_id = 15, project_id = 7, created_at = 10, deleted_at = Some 400, project_sequence = None\<rparr>]"
    by simp
  from spec_example [OF h1 h2 h3 h4, of False] h1 h2 h3 h4 show ?thesis
    by blast
qed

text \<open>
  Claim C4. Let a call of the select or of one of the updates raise: the environment
  fails call \<open>k\<close>, the select being call 0 and the updates calls 1 to the number of
  rows selected, or the unique index refuses the \<open>k\<close>-th update. Then the run is
  aborted at the select or at an update, no commit has been issued, and the table in
  the file is the one the run started from.
\<close>

theorem error_before_commit_persists_nothing:
  assumes "(F k = Some e \<and> k \<le> length (select_tasks ix db))
     \<or> (ix \<and> 0 < k \<and> k \<le> length (select_tasks ix db)
         \<and> \<not> unique_ok (apply_updates (take k (issued Map.empty (select_tasks ix db))) db))"
  shows "\<exists>e' c out. backfill F (connect db ix) = Aborted e' c out
    \<and> (last (calls c) = SelectTasks \<or> (\<exists>s tid. last (calls c) = UpdateSeq s tid))
    \<and> Commit \<notin> set (calls c)
    \<and> committed c = db
    \<and> stored_after F db ix = db"
proof (cases rule: backfill_cases [of F "connect db ix"])
  case (select_fails e' c)
  from execute_Inl [OF select_fails(1)] show ?thesis
    by (simp add: select_fails(2) stored_after_def)
next
  case (loop_fails c1 e' c out)
  from loop_fails_conn [OF loop_fails(1,2)] obtain j where
    j: "j < length (select_tasks ix db)" and
    c: "c = \<lparr>committed = db,
             pending = apply_updates (take j (issued Map.empty (select_tasks ix db))) db,
             index = ix,
             calls = SelectTasks # map (\<lambda>(s, tid). UpdateSeq s tid)
                       (take (Suc j) (issued Map.empty (select_tasks ix db)))\<rparr>"
    by blast
  let ?us = "take (Suc j) (issued Map.empty (select_tasks ix db))"
  from j have "length ?us = Suc j" by simp
  then have ne: "?us \<noteq> []" by (metis length_0_conv Zero_not_Suc)
  have "last (calls c) = (\<lambda>(s, tid). UpdateSeq s tid) (last ?us)"
    using ne by (simp add: c last_map)
  then have lst: "\<exists>s tid. last (calls c) = UpdateSeq s tid"
    by (cases "last ?us") auto
  have "Commit \<notin> set (calls c)"
    using Commit_not_update [of ?us] by (simp add: c del: set_map)
  with lst show ?thesis
    by (simp add: loop_fails(3) stored_after_def c)
next
  case (commit_fails c1 c2 out2 e' c)
  from reaching_commit_clean [OF commit_fails(1,2)] assms have False by auto
  then show ?thesis ..
next
  case (count_fails c1 c2 out2 c3 c4 out4 e' c)
  from reaching_commit_clean [OF count_fails(1,2)] assms have False by auto
  then show ?thesis ..
next
  case (finished c1 c2 out2 c3 c4 out4 c5)
  from reaching_commit_clean [OF finished(1,2)] assms have False by auto
  then show ?thesis ..
qed

text \<open>A run whose second update fails: the first update is lost with the transaction.\<close>

theorem error_before_commit_persists_nothing_witness:
  "fault_at 2 OperationalError 2 = Some OperationalError
   \<and> 2 \<le> length (select_tasks False
        [\<lparr>task_id = 1, project_id = 7, created_at = 10, deleted_at = None, project_sequence = None\<rparr>,
         \<lparr>task_id = 2, project_id = 7, created_at = 20, deleted_at = None, project_sequence = None\<rparr>])
   \<and> backfill (fault_at 2 OperationalError)
     (connect
        [\<lparr>task_id = 1, project_id = 7, created_at = 10, deleted_at = None, project_sequence = None\<rparr>,
         \<lparr>task_id = 2, project_id = 7, created_at = 20, deleted_at = None, project_sequence = None\<rparr>]
        False)
   = Aborted OperationalError
       \<lparr>committed =
          [\<lparr>task_id = 1, project_id = 7, created_at = 10, deleted_at = None, project_sequence = None\<rparr>,
           \<lparr>task_id = 2, project_id = 7, created_at = 20, deleted_at = None, project_sequence = None\<rparr>],
        pending =
          [\<lparr>task_id = 1, project_id = 7, created_at = 10, deleted_at = None, project_sequence = Some 1\<rparr>,
           \<lparr>task_id = 2, project_id = 7, created_at = 20, deleted_at = None, project_sequence = None\<rparr>],
        index = False,
        calls = [SelectTasks, UpdateSeq 1 1, UpdateSeq 2 2]\<rparr>
       [Progress 1 7 1]
   \<and> stored_after (fault_at 2 OperationalError)
       [\<lparr>task_id = 1, project_id = 7, created_at = 10, deleted_at = None, project_sequence = None\<rparr>,
        \<lparr>task_id = 2, project_id = 7, created_at = 20, deleted_at = None, project_sequence = None\<rparr>]
       False
     = [\<lparr>task_id = 1, project_id = 7, created_at = 10, deleted_at = None, project_sequence = None\<rparr>,
        \<lparr>task_id = 2, project_id = 7, created_at = 20, deleted_at = None, project_sequence = None\<rparr>]"
proof -
  have fault: "fault_at 2 OperationalError 2 = Some OperationalError
    \<and> 2 \<le> length (select_tasks False
        [\<lparr>task_id = 1, project_id = 7, created_at = 10, deleted_at = None, project_sequence = None\<rparr>,
         \<lparr>task_id = 2, project_id = 7, created_at = 20, deleted_at = None, project_sequence = None\<rparr>])"
    by (simp add: select_tasks_def fault_at_def)
  have run: "backfill (fault_at 2 OperationalError)
     (connect
        [\<lparr>task_id = 1, project_id = 7, created_at = 10, deleted_at = None, project_sequence = None\<rparr>,
         \<lparr>task_id = 2, project_id = 7, created_at = 20, deleted_at = None, project_sequence = None\<rparr>]
        False)
   = Aborted OperationalError
       \<lparr>committed =
          [\<lparr>task_id = 1, project_id = 7, created_at = 10, deleted_at = None, project_sequence = None\<rparr>,
           \<lparr>task_id = 2, project_id = 7, created_at = 20, deleted_at = None, project_sequence = None\<rparr>],
        pending =
          [\<lparr>task_id = 1, project_id = 7, created_at = 10, deleted_at = None, project_sequence = Some 1\<rparr>,
           \<lparr>task_id = 2, project_id = 7, created_at = 20, deleted_at = None, project_sequence = None\<rparr>],
        index = False,
        calls = [SelectTasks, UpdateSeq 1 1, UpdateSeq 2 2]\<rparr>
       [Progress 1 7 1]"
    by (simp add: backfill_def connect_def select_tasks_def order_by_def execute_def update_seq_def
          fault_at_def)
  from error_before_commit_persists_nothing
      [where F = "fault_at 2 OperationalError" and k = 2 and e = OperationalError
         and ix = False, OF disjI1, OF fault]
    fault run
  show ?thesis by simp
qed

text \<open>
  Claim C5. Once the run has reached \<^verbatim>\<open>CREATE UNIQUE INDEX\<close>, which is call
  \<open>length (select_tasks ix db) + 2\<close>, the count query is issued whatever the index
  step does, and the run ends with the summary line or is aborted by the count query
  itself raising. The index step fails in three ways: the environment fails the
  statement, the rows collide, or the environment fails the commit that follows a
  statement that went through. A warning carrying the error is printed in exactly
  these cases, the success line in exactly the remaining one (which covers the index
  being there already), and the index exists afterwards when it existed before or the
  statement went through.
\<close>

theorem index_step_never_aborts:
  assumes "CreateUniqueIndex \<in> set (calls (outcome_conn (backfill F (connect db ix))))"
  shows "last (calls (outcome_conn (backfill F (connect db ix)))) = CountSequenced
    \<and> ((\<exists>c out n. backfill F (connect db ix) = Finished c (out @ [Summary n]))
        \<or> (\<exists>e c out. backfill F (connect db ix) = Aborted e c out
              \<and> F (length (calls c) - 1) = Some e))
    \<and> (IndexCreated \<in> set (outcome_lines (backfill F (connect db ix)))
        \<or> (\<exists>e. IndexWarning e \<in> set (outcome_lines (backfill F (connect db ix)))))
    \<and> (\<forall>e. (IndexWarning e \<in> set (outcome_lines (backfill F (connect db ix))))
          = (F (length (select_tasks ix db) + 2) = Some e
             \<or> (F (length (select_tasks ix db) + 2) = None \<and> e = IntegrityError
                 \<and> \<not> ix \<and> \<not> unique_ok (stored_after F db ix))
             \<or> (F (length (select_tasks ix db) + 2) = None
                 \<and> (ix \<or> unique_ok (stored_after F db ix))
                 \<and> F (length (select_tasks ix db) + 3) = Some e)))
    \<and> ((IndexCreated \<in> set (outcome_lines (backfill F (connect db ix))))
          = (F (length (select_tasks ix db) + 2) = None
             \<and> (ix \<or> unique_ok (stored_after F db ix))
             \<and> F (length (select_tasks ix db) + 3) = None))
    \<and> (index (outcome_conn (backfill F (connect db ix)))
          = (ix \<or> (F (length (select_tasks ix db) + 2) = None
                    \<and> unique_ok (stored_after F db ix))))
    \<and> calls (outcome_conn (backfill F (connect db ix)))
          = SelectTasks # map (\<lambda>(s, tid). UpdateSeq s tid) (issued Map.empty (select_tasks ix db))
            @ Commit # CreateUniqueIndex
            # (if F (length (select_tasks ix db) + 2) = None
                  \<and> (ix \<or> unique_ok (stored_after F db ix))
               then [Commit, CountSequenced] else [CountSequenced])"
proof -
  define r where "r = backfill F (connect db ix)"
  define k where "k = length (select_tasks ix db) + 2"
  define rows where "rows = apply_updates (issued Map.empty (select_tasks ix db)) db"
  define pre where "pre = map (\<lambda>((tid, pid), s). Progress tid pid s)
      (zip (select_tasks ix db) (sequences Map.empty (map snd (select_tasks ix db))))"
  define calls3 where "calls3 = SelectTasks # map (\<lambda>(s, tid). UpdateSeq s tid)
      (issued Map.empty (select_tasks ix db)) @ [Commit]"
  have k3: "length (select_tasks ix db) + 3 = Suc k" by (simp add: k_def)
  have pre_w: "IndexWarning e \<notin> set pre" for e unfolding pre_def by (rule progress_only)
  have pre_c: "IndexCreated \<notin> set pre" unfolding pre_def by (rule progress_only)
  have main: "\<exists>c4 out4 post. create_index_step F
        \<lparr>committed = rows, pending = rows, index = ix, calls = calls3\<rparr> pre = (c4, out4)
      \<and> outcome_conn r = c4\<lparr>calls := calls c4 @ [CountSequenced]\<rparr>
      \<and> outcome_lines r = out4 @ post
      \<and> (post = [] \<or> (\<exists>n. post = [Summary n]))
      \<and> ((\<exists>c n. r = Finished c (out4 @ [Summary n]))
          \<or> (\<exists>e c. r = Aborted e c out4 \<and> F (length (calls c) - 1) = Some e))"
  proof (cases rule: backfill_cases [of F "connect db ix"])
    case (select_fails e c)
    from execute_Inl [OF select_fails(1)] assms show ?thesis
      by (simp add: select_fails(2))
  next
    case (loop_fails c1 e c out)
    from loop_fails_conn [OF loop_fails(1,2)] assms show ?thesis
      by (auto simp: loop_fails(3))
  next
    case (commit_fails c1 c2 out2 e c)
    from commit_fails_conn [OF commit_fails(1,2,3)] assms show ?thesis
      by (auto simp: commit_fails(4))
  next
    case (count_fails c1 c2 out2 c3 c4 out4 e c)
    have c3: "c3 = \<lparr>committed = rows, pending = rows, index = ix, calls = calls3\<rparr>"
      unfolding rows_def calls3_def by (rule after_commit(1) [OF count_fails(1,2,3)]) 
    have out2: "out2 = pre" unfolding pre_def by (rule after_commit(2) [OF count_fails(1,2,3)])
    from execute_Inl [OF count_fails(5)] have "c = c4\<lparr>calls := calls c4 @ [CountSequenced]\<rparr>"
      by (cases c, cases c4) simp
    moreover have "F (length (calls c) - 1) = Some e"
      using execute_Inl [OF count_fails(5)] execute_count_Inl [OF count_fails(5)] by simp
    ultimately show ?thesis
      using count_fails(4) unfolding r_def count_fails(6) c3 out2 by auto
  next
    case (finished c1 c2 out2 c3 c4 out4 c5)
    have c3: "c3 = \<lparr>committed = rows, pending = rows, index = ix, calls = calls3\<rparr>"
      unfolding rows_def calls3_def by (rule after_commit(1) [OF finished(1,2,3)])
    have out2: "out2 = pre" unfolding pre_def by (rule after_commit(2) [OF finished(1,2,3)])
    from execute_count_Inr [OF finished(5)]
    show ?thesis
      using finished(4) unfolding r_def finished(6) c3 out2 by auto
  qed
  then obtain c4 out4 post where
    step: "create_index_step F
        \<lparr>committed = rows, pending = rows, index = ix, calls = calls3\<rparr> pre = (c4, out4)"
    and conn: "outcome_conn r = c4\<lparr>calls := calls c4 @ [CountSequenced]\<rparr>"
    and lines: "outcome_lines r = out4 @ post"
    and post: "post = [] \<or> (\<exists>n. post = [Summary n])"
    and ends: "(\<exists>c n. r = Finished c (out4 @ [Summary n]))
          \<or> (\<exists>e c. r = Aborted e c out4 \<and> F (length (calls c) - 1) = Some e)"
    by blast
  have len: "length calls3 = k" by (simp add: calls3_def k_def)
  note ex = create_index_step_exact [OF step, simplified, unfolded len]
  from create_index_step_result [OF step] have "committed c4 = rows" by auto
  then have st: "stored_after F db ix = rows"
    by (simp add: stored_after_def r_def [symmetric] conn)
  have post_w: "IndexWarning e \<notin> set post" for e using post by auto
  have post_c: "IndexCreated \<notin> set post" using post by auto
  consider (fault) e where "F k = Some e"
    | (collide) "F k = None" "\<not> ix" "\<not> unique_ok rows"
    | (commit_fault) e where "F k = None" "ix \<or> unique_ok rows" "F (Suc k) = Some e"
    | (created) "F k = None" "ix \<or> unique_ok rows" "F (Suc k) = None"
    by (cases "F k"; cases "F (Suc k)") auto
  then have shape:
    "(\<forall>e. (IndexWarning e \<in> set (out4 @ post))
          = (F k = Some e
             \<or> (F k = None \<and> e = IntegrityError \<and> \<not> ix \<and> \<not> unique_ok rows)
             \<or> (F k = None \<and> (ix \<or> unique_ok rows) \<and> F (Suc k) = Some e)))
     \<and> ((IndexCreated \<in> set (out4 @ post))
          = (F k = None \<and> (ix \<or> unique_ok rows) \<and> F (Suc k) = None))
     \<and> (index c4 = (ix \<or> (F k = None \<and> unique_ok rows)))
     \<and> calls c4 = calls3 @ CreateUniqueIndex
            # (if F k = None \<and> (ix \<or> unique_ok rows) then [Commit] else [])"
  proof cases
    case fault
    with ex pre_w pre_c post_w post_c show ?thesis by auto
  next
    case collide
    with ex pre_w pre_c post_w post_c show ?thesis by auto
  next
    case commit_fault
    with ex pre_w pre_c post_w post_c show ?thesis by auto
  next
    case created
    with ex pre_w pre_c post_w post_c show ?thesis by auto
  qed
  have some: "IndexCreated \<in> set (out4 @ post) \<or> (\<exists>e. IndexWarning e \<in> set (out4 @ post))"
    using shape by (cases "F k"; cases "F (Suc k)") auto
  have last: "last (calls (outcome_conn r)) = CountSequenced" by (simp add: conn)
  have calls: "calls (outcome_conn r) = SelectTasks # map (\<lambda>(s, tid). UpdateSeq s tid)
        (issued Map.empty (select_tasks ix db))
      @ Commit # CreateUniqueIndex
      # (if F k = None \<and> (ix \<or> unique_ok rows) then [Commit, CountSequenced]
         else [CountSequenced])"
    using shape by (simp add: conn calls3_def)
  have idx: "index (outcome_conn r) = (ix \<or> (F k = None \<and> unique_ok rows))"
    using shape by (simp add: conn)
  from ends have ends': "(\<exists>c out n. r = Finished c (out @ [Summary n]))
        \<or> (\<exists>e c out. r = Aborted e c out \<and> F (length (calls c) - 1) = Some e)"
    by blast
  from last ends' some shape calls idx show ?thesis
    unfolding r_def [symmetric] k_def [symmetric] k3 st lines by blast
qed

text \<open>
  The statement goes through and the commit after it fails: the index is there, the
  warning is printed, and the count follows.
\<close>

theorem index_step_never_aborts_witness:
  "CreateUniqueIndex \<in> set (calls (outcome_conn (backfill (fault_at 4 OperationalError)
     (connect
        [\<lparr>task_id = 1, project_id = 7, created_at = 10, deleted_at = None, project_sequence = None\<rparr>]
        False))))
   \<and> backfill (fault_at 4 OperationalError)
     (connect
        [\<lparr>task_id = 1, project_id = 7, created_at = 10, deleted_at = None, project_sequence = None\<rparr>]
        False)
   = Finished
       \<lparr>committed =
          [\<lparr>task_id = 1, project_id = 7, created_at = 10, deleted_at = None, project_sequence = Some 1\<rparr>],
        pending =
          [\<lparr>task_id = 1, project_id = 7, created_at = 10, deleted_at = None, project_sequence = Some 1\<rparr>],
        index = True,
        calls = [SelectTasks, UpdateSeq 1 1, Commit, CreateUniqueIndex, Commit, CountSequenced]\<rparr>
       [Progress 1 7 1, IndexWarning OperationalError, Summary 1]"
proof -
  have run: "backfill (fault_at 4 OperationalError)
     (connect
        [\<lparr>task_id = 1, project_id = 7, created_at = 10, deleted_at = None, project_sequence = None\<rparr>]
        False)
   = Finished
       \<lparr>committed =
          [\<lparr>task_id = 1, project_id = 7, created_at = 10, deleted_at = None, project_sequence = Some 1\<rparr>],
        pending =
          [\<lparr>task_id = 1, project_id = 7, created_at = 10, deleted_at = None, project_sequence = Some 1\<rparr>],
        index = True,
        calls = [SelectTasks, UpdateSeq 1 1, Commit, CreateUniqueIndex, Commit, CountSequenced]\<rparr>
       [Progress 1 7 1, IndexWarning OperationalError, Summary 1]"
    by (simp add: backfill_def connect_def select_tasks_def order_by_def execute_def update_seq_def
          fault_at_def create_index_step_def unique_ok_def count_sequenced_def)
  have reach: "CreateUniqueIndex \<in> set (calls (outcome_conn (backfill (fault_at 4 OperationalError)
     (connect
        [\<lparr>task_id = 1, project_id = 7, created_at = 10, deleted_at = None, project_sequence = None\<rparr>]
        False))))"
    unfolding run by simp
  from index_step_never_aborts [OF reach] reach run show ?thesis by simp
qed



end
